theory Spec2Isabelle
  imports Main "HOL-Library.Multiset" "HOL-Library.Word"
begin

section \<open>Data model\<close>

text \<open>
  A \<open>time.Time\<close> value is an instant together with the zone it is presented in. The
  instant is kept as nanoseconds since 1970-01-01T00:00:00Z, the zone as its offset in
  seconds east of UTC. Every \<open>Time\<close> of the program comes out of the JSON decoder or is
  the zero value of the struct field.
\<close>

record Time =
  unixNano :: int
  zoneOffset :: int

text \<open>The zero \<open>Time\<close>: January 1, year 1, 00:00:00 UTC.\<close>

definition zeroTime :: Time where
  "zeroTime = \<lparr>unixNano = - 62135596800 * 1000000000, zoneOffset = 0\<rparr>"

text \<open>\<open>t.Before(u)\<close> compares the instants; the zones play no part.\<close>

definition Before :: "Time \<Rightarrow> Time \<Rightarrow> bool" where
  "Before t u = (unixNano t < unixNano u)"

text \<open>\<open>messages.ParsedMessage\<close>, with Go strings as byte lists.\<close>

record ParsedMessage =
  TextPayload :: string
  Timestamp :: Time

section \<open>Formatting a timestamp\<close>

text \<open>
  \<open>Timestamp.Format("2006-01-02 15:04:05.999999999 UTC")\<close>. The layout has the
  elements year (four digits), month, day, hour, minute and second (two digits each) and
  \<open>.999999999\<close>, a fraction of up to nine digits with trailing zeros removed; the text
  \<open>UTC\<close> is no layout element and is copied as it is.
\<close>

definition digit :: "nat \<Rightarrow> char" where
  "digit n = ''0123456789'' ! (n mod 10)"

function dec :: "int \<Rightarrow> string" where
  "dec n = (if n < 10 then [digit (nat n)] else dec (n div 10) @ [digit (nat (n mod 10))])"
  by pat_completeness auto
termination
  by (relation "measure nat") auto

declare dec.simps [simp del]

text \<open>\<open>appendInt\<close>: sign, zero padding up to the width, decimal digits.\<close>

definition appendInt :: "int \<Rightarrow> nat \<Rightarrow> string" where
  "appendInt x width =
     (let ds = dec \<bar>x\<bar>
      in (if x < 0 then ''-'' else []) @ replicate (width - length ds) CHR ''0'' @ ds)"

text \<open>The last \<open>k\<close> decimal digits of \<open>u\<close>, filled from the right as \<open>formatNano\<close> does.\<close>

fun fill :: "nat \<Rightarrow> int \<Rightarrow> string" where
  "fill 0 u = []"
| "fill (Suc k) u = fill k (u div 10) @ [digit (nat (u mod 10))]"

definition trimZeros :: "string \<Rightarrow> string" where
  "trimZeros buf = rev (dropWhile (\<lambda>c. c = CHR ''0'') (rev buf))"

text \<open>\<open>formatNano(b, nanosec, 9, true)\<close>: nothing at all when every digit is trimmed.\<close>

definition formatNano :: "int \<Rightarrow> string" where
  "formatNano nanosec =
     (let ds = trimZeros (fill 9 nanosec)
      in if ds = [] then [] else CHR ''.'' # ds)"

text \<open>
  The date of a day number (days since 1970-01-01) in the proleptic Gregorian calendar,
  which is the calendar of \<open>Time.Date\<close>: year, month, day.
\<close>

definition date_of_days :: "int \<Rightarrow> int \<times> int \<times> int" where
  "date_of_days z =
     (let z1 = z + 719468;
          era = z1 div 146097;
          doe = z1 mod 146097;
          yoe = (doe - doe div 1460 + doe div 36524 - doe div 146096) div 365;
          doy = doe - (365 * yoe + yoe div 4 - yoe div 100);
          mp = (5 * doy + 2) div 153;
          d = doy - (153 * mp + 2) div 5 + 1;
          m = (if mp < 10 then mp + 3 else mp - 9)
      in (yoe + era * 400 + (if m \<le> 2 then 1 else 0), m, d))"

text \<open>Seconds since the epoch on the clock of the timestamp's own zone.\<close>

definition localSec :: "Time \<Rightarrow> int" where
  "localSec t = unixNano t div 1000000000 + zoneOffset t"

definition nanosecond :: "Time \<Rightarrow> int" where
  "nanosecond t = unixNano t mod 1000000000"

definition Format :: "Time \<Rightarrow> string" where
  "Format t =
     (let (year, month, day) = date_of_days (localSec t div 86400);
          sod = localSec t mod 86400
      in appendInt year 4 @ ''-'' @ appendInt month 2 @ ''-'' @ appendInt day 2 @ '' '' @
         appendInt (sod div 3600) 2 @ '':'' @ appendInt (sod mod 3600 div 60) 2 @ '':'' @
         appendInt (sod mod 60) 2 @ formatNano (nanosecond t) @ '' UTC'')"

section \<open>The emission loop of the flusher\<close>

datatype panic = IndexOutOfRange

text \<open>\<open>s[i]\<close> on a Go string: a run-time panic when the index is out of range.\<close>

definition index_byte :: "string \<Rightarrow> nat \<Rightarrow> panic + char" where
  "index_byte s i = (if i < length s then Inr (s ! i) else Inl IndexOutOfRange)"

definition newline :: string where
  "newline = [CHR 0x0A]"

text \<open>\<open>fmt.Printf("[%s]: %s\n", timestamp, text)\<close> and \<open>fmt.Println(text)\<close>.\<close>

definition Printf_entry :: "string \<Rightarrow> string \<Rightarrow> string" where
  "Printf_entry timestamp text = ''['' @ timestamp @ '']: '' @ text @ newline"

definition Println :: "string \<Rightarrow> string" where
  "Println text = text @ newline"

text \<open>
  The body of the loop over the batch, for one message: the bytes it writes to standard
  output (one element per print call), or the panic of the string indexing.
\<close>

definition print_msg :: "ParsedMessage \<Rightarrow> panic + string list" where
  "print_msg msg =
     (if TextPayload msg \<noteq> [] then
        (case index_byte (TextPayload msg) 0 of
           Inl p \<Rightarrow> Inl p
         | Inr c \<Rightarrow>
             if c = CHR ''['' then
               Inr [Printf_entry (Format (Timestamp msg)) (TextPayload msg)]
             else Inr [Println (TextPayload msg)])
      else Inr [])"

text \<open>\<open>for i := range globalMessages\<close>: standard output grows message by message.\<close>

fun print_all :: "ParsedMessage list \<Rightarrow> string list \<Rightarrow> panic + string list" where
  "print_all [] out = Inr out"
| "print_all (msg # msgs) out =
     (case print_msg msg of
        Inl p \<Rightarrow> Inl p
      | Inr ls \<Rightarrow> print_all msgs (out @ ls))"

text \<open>The lines one message writes.\<close>

definition lines_of :: "ParsedMessage \<Rightarrow> string list" where
  "lines_of msg = (case print_msg msg of Inl p \<Rightarrow> [] | Inr ls \<Rightarrow> ls)"

section \<open>The shared buffer\<close>

text \<open>
  The Go standard library and run time are not part of the repository. What the program
  needs of them and what their documentation leaves open is a parameter of the model:
  \<^item> \<open>time_Parse\<close>: the RFC 3339 parser behind \<open>Time.UnmarshalJSON\<close>, \<open>None\<close> for
    its error;
  \<^item> \<open>growslice\<close>: the capacity \<open>append\<close> chooses for a slice that is full, from
    the old capacity;
  \<^item> \<open>sort_Slice\<close>: \<open>sort.Slice\<close>, given the order on the elements that the \<open>less\<close>
    closure reads off the slice.
\<close>

record Lib =
  time_Parse :: "string \<Rightarrow> Time option"
  growslice :: "nat \<Rightarrow> nat"
  sort_Slice ::
    "(ParsedMessage \<Rightarrow> ParsedMessage \<Rightarrow> bool) \<Rightarrow> ParsedMessage list \<Rightarrow> ParsedMessage list"

text \<open>A Go slice of messages: its elements and its capacity.\<close>

record Slice =
  elems :: "ParsedMessage list"
  cap :: nat

text \<open>\<open>var globalMessages []messages.ParsedMessage\<close> starts as the nil slice.\<close>

definition nilSlice :: Slice where
  "nilSlice = \<lparr>elems = [], cap = 0\<rparr>"

text \<open>\<open>append(globalMessages, pm)\<close>.\<close>

definition append_slice :: "Lib \<Rightarrow> Slice \<Rightarrow> ParsedMessage \<Rightarrow> Slice" where
  "append_slice L s pm =
     \<lparr>elems = elems s @ [pm],
      cap = (if length (elems s) < cap s then cap s else growslice L (cap s))\<rparr>"

text \<open>\<open>make([]messages.ParsedMessage, 0, n)\<close>.\<close>

definition make_slice :: "nat \<Rightarrow> Slice" where
  "make_slice n = \<lparr>elems = [], cap = n\<rparr>"

section \<open>Decoding a payload\<close>

text \<open>
  \<open>json.Unmarshal\<close> first scans the bytes for JSON syntax and then stores the document in
  the struct. A payload is represented by the outcome of the scan: the bytes are no
  JSON, or they are this document. A string value carries the bytes between its quotes
  and the string they denote: \<open>Time.UnmarshalJSON\<close> parses the former, a string field
  receives the latter.
\<close>

datatype json =
  JNull
  | JBool bool
  | JNumber
  | JString string string
  | JArray "json list"
  | JObject "(string \<times> json) list"

datatype payload = Invalid | Valid json

datatype decode_error = SyntaxError | UnmarshalTypeError | TimeParseError

text \<open>
  An object key selects the struct field whose JSON name it equals, or else the field
  whose name it matches under the decoder's case folding: for \<open>textPayload\<close>, all
  letters, byte by byte up to the case bit; for \<open>timestamp\<close>, ASCII case-insensitively,
  with U+017F (long s) for \<open>s\<close> and U+212A (Kelvin sign) for \<open>k\<close>.
\<close>

definition caseMask :: "char \<Rightarrow> nat" where
  "caseMask c = (let n = of_char c in if (n div 32) mod 2 = 1 then n - 32 else n)"

definition simpleLetterEqualFold :: "string \<Rightarrow> string \<Rightarrow> bool" where
  "simpleLetterEqualFold s t = (map caseMask s = map caseMask t)"

fun equalFoldRight :: "string \<Rightarrow> string \<Rightarrow> bool" where
  "equalFoldRight [] t = (t = [])"
| "equalFoldRight (sb # s) [] = False"
| "equalFoldRight (sb # s) (tb # t) =
     (if (of_char tb :: nat) < 128 then
        (sb = tb \<or> (65 \<le> caseMask sb \<and> caseMask sb \<le> 90 \<and> caseMask sb = caseMask tb)) \<and>
        equalFoldRight s t
      else if sb = CHR ''s'' \<or> sb = CHR ''S'' then
        take 2 (tb # t) = [CHR 0xC5, CHR 0xBF] \<and> equalFoldRight s (drop 1 t)
      else if sb = CHR ''k'' \<or> sb = CHR ''K'' then
        take 3 (tb # t) = [CHR 0xE2, CHR 0x84, CHR 0xAA] \<and> equalFoldRight s (drop 2 t)
      else False)"

datatype field = FTextPayload | FTimestamp

definition findField :: "string \<Rightarrow> field option" where
  "findField key =
     (if key = ''textPayload'' then Some FTextPayload
      else if key = ''timestamp'' then Some FTimestamp
      else if simpleLetterEqualFold ''textPayload'' key then Some FTextPayload
      else if equalFoldRight ''timestamp'' key then Some FTimestamp
      else None)"

text \<open>
  The members of an object, in order. An unknown key is skipped. A \<open>null\<close> leaves the
  field as it is. A value of the wrong kind for the string field is recorded as the first
  error and decoding goes on; an error of \<open>Time.UnmarshalJSON\<close> ends the decoding.
\<close>

fun decodeFields ::
  "Lib \<Rightarrow> (string \<times> json) list \<Rightarrow> ParsedMessage \<Rightarrow> decode_error option \<Rightarrow>
     decode_error + ParsedMessage" where
  "decodeFields L [] pm saved = (case saved of None \<Rightarrow> Inr pm | Some e \<Rightarrow> Inl e)"
| "decodeFields L ((key, v) # kvs) pm saved =
     (case findField key of
        None \<Rightarrow> decodeFields L kvs pm saved
      | Some FTextPayload \<Rightarrow>
          (case v of
             JString raw s \<Rightarrow> decodeFields L kvs (pm\<lparr>TextPayload := s\<rparr>) saved
           | JNull \<Rightarrow> decodeFields L kvs pm saved
           | _ \<Rightarrow>
               decodeFields L kvs pm
                 (case saved of None \<Rightarrow> Some UnmarshalTypeError | Some e \<Rightarrow> Some e))
      | Some FTimestamp \<Rightarrow>
          (case v of
             JString raw s \<Rightarrow>
               (case time_Parse L raw of
                  None \<Rightarrow> Inl TimeParseError
                | Some t \<Rightarrow> decodeFields L kvs (pm\<lparr>Timestamp := t\<rparr>) saved)
           | JNull \<Rightarrow> decodeFields L kvs pm saved
           | _ \<Rightarrow> Inl TimeParseError))"

text \<open>\<open>var pm messages.ParsedMessage\<close>: the zero value of the struct.\<close>

definition zeroMessage :: ParsedMessage where
  "zeroMessage = \<lparr>TextPayload = [], Timestamp = zeroTime\<rparr>"

definition json_Unmarshal :: "Lib \<Rightarrow> payload \<Rightarrow> decode_error + ParsedMessage" where
  "json_Unmarshal L data =
     (case data of
        Invalid \<Rightarrow> Inl SyntaxError
      | Valid v \<Rightarrow>
          (case v of
             JObject kvs \<Rightarrow> decodeFields L kvs zeroMessage None
           | JNull \<Rightarrow> Inr zeroMessage
           | _ \<Rightarrow> Inl UnmarshalTypeError))"

text \<open>
  A member of an object that the decoder takes without error: a key of no field, a string
  or \<open>null\<close> for \<open>textPayload\<close>, a timestamp that parses or \<open>null\<close> for \<open>timestamp\<close>.
\<close>

fun member_ok :: "Lib \<Rightarrow> string \<times> json \<Rightarrow> bool" where
  "member_ok L (key, v) =
     (case findField key of
        None \<Rightarrow> True
      | Some FTextPayload \<Rightarrow> (case v of JString raw s \<Rightarrow> True | JNull \<Rightarrow> True | _ \<Rightarrow> False)
      | Some FTimestamp \<Rightarrow>
          (case v of JString raw s \<Rightarrow> time_Parse L raw \<noteq> None | JNull \<Rightarrow> True | _ \<Rightarrow> False))"

text \<open>Whether some key of the object selects the field.\<close>

definition has_field :: "field \<Rightarrow> (string \<times> json) list \<Rightarrow> bool" where
  "has_field f kvs = list_ex (\<lambda>kv. findField (fst kv) = Some f) kvs"

text \<open>
  \<open>parseMessage\<close>, on the buffer: a payload that does not decode is ignored, any other
  is appended. (Its locking is in the interleaving model below.)
\<close>

definition parseMessage :: "Lib \<Rightarrow> payload \<Rightarrow> Slice \<Rightarrow> Slice" where
  "parseMessage L data gm =
     (case json_Unmarshal L data of
        Inl err \<Rightarrow> gm
      | Inr pm \<Rightarrow> append_slice L gm pm)"

section \<open>One pass of the flusher\<close>

text \<open>The \<open>less\<close> closure of the sort, on the elements it indexes.\<close>

definition less_Timestamp :: "ParsedMessage \<Rightarrow> ParsedMessage \<Rightarrow> bool" where
  "less_Timestamp x y = Before (Timestamp x) (Timestamp y)"

text \<open>The instant of a message, which is all the closure compares.\<close>

definition instant :: "ParsedMessage \<Rightarrow> int" where
  "instant msg = unixNano (Timestamp msg)"

text \<open>
  The body of the loop of \<open>flushMessages\<close> between \<open>mx.Lock()\<close> and \<open>mx.Unlock()\<close>, on
  the buffer and standard output.
\<close>

definition flushMessages_pass :: "Lib \<Rightarrow> Slice \<Rightarrow> string list \<Rightarrow> panic + Slice \<times> string list" where
  "flushMessages_pass L gm out =
     (if length (elems gm) > 0 then
        (let sorted = sort_Slice L less_Timestamp (elems gm)
         in case print_all sorted out of
              Inl p \<Rightarrow> Inl p
            | Inr out' \<Rightarrow> Inr (make_slice (length sorted), out'))
      else Inr (gm, out))"

text \<open>
  What the documentation of \<open>sort.Slice\<close> promises of a call on a batch: the slice is
  rearranged (the sort only swaps elements) and afterwards no element is less than one
  before it.
\<close>

definition sort_Slice_ok :: "Lib \<Rightarrow> ParsedMessage list \<Rightarrow> bool" where
  "sort_Slice_ok L xs =
     (mset (sort_Slice L less_Timestamp xs) = mset xs \<and>
      sorted_wrt (\<lambda>x y. \<not> less_Timestamp y x) (sort_Slice L less_Timestamp xs))"

section \<open>Workers and flusher, interleaved\<close>

text \<open>
  The goroutines of the pipeline as an interleaving of atomic steps on one shared state:
  any number of workers of the subscription, each running the \<open>Receive\<close> callback on
  one message at a time, and the flusher. A step is one statement that touches shared
  state; \<open>mx.Lock()\<close> is enabled only while the mutex is free.
\<close>

datatype owner = Worker nat | Flusher

text \<open>
  Where a worker stands in the callback, with the message identifier: decoded and about
  to lock; holding the lock, about to append; appended, the deferred unlock pending;
  \<open>parseMessage\<close> has returned, about to \<open>msg.Ack()\<close>.
\<close>

datatype wstate =
  Idle
  | Decoded nat ParsedMessage
  | Locked nat ParsedMessage
  | Stored nat
  | Returned nat

text \<open>
  Where the flusher stands in its loop: waiting for the tick; about to lock; holding the
  lock at the length test; sorted; printed; about to unlock; or stopped by a panic.
\<close>

datatype fstate =
  Waiting
  | Ticked
  | Holding
  | Sorted
  | Printed
  | Unlocking
  | Panicked panic

record sys =
  globalMessages :: Slice
  mx :: "owner option"
  stdout :: "string list"
  acked :: "nat list"
  workers :: "nat \<Rightarrow> wstate"
  flusher :: fstate

definition init :: sys where
  "init = \<lparr>globalMessages = nilSlice, mx = None, stdout = [], acked = [],
            workers = (\<lambda>t. Idle), flusher = Waiting\<rparr>"

text \<open>
  What a scheduler can choose: the subscription hands worker \<open>t\<close> a message (identifier
  and payload), worker \<open>t\<close> runs its next statement, the ticker fires, the flusher runs
  its next statement.
\<close>

datatype action =
  Deliver nat nat payload
  | Work nat
  | Tick
  | Flush

text \<open>What a step lets an observer see.\<close>

datatype event =
  Dropped nat nat
  | Appended nat nat ParsedMessage
  | Acked nat nat
  | Flushed "ParsedMessage list"

text \<open>
  The callback of \<open>sub.Receive\<close>, \<open>parseMessage(msg.Data)\<close> and then \<open>msg.Ack()\<close>, after
  its entry: \<open>mx.Lock()\<close>, the append, the deferred \<open>mx.Unlock()\<close>, the acknowledgement.
\<close>

definition callback_step :: "Lib \<Rightarrow> nat \<Rightarrow> sys \<Rightarrow> (event list \<times> sys) option" where
  "callback_step L t s =
     (case workers s t of
        Idle \<Rightarrow> None
      | Decoded m pm \<Rightarrow>
          (if mx s = None then
             Some ([], s\<lparr>mx := Some (Worker t), workers := (workers s)(t := Locked m pm)\<rparr>)
           else None)
      | Locked m pm \<Rightarrow>
          Some ([Appended t m pm],
                s\<lparr>globalMessages := append_slice L (globalMessages s) pm,
                  workers := (workers s)(t := Stored m)\<rparr>)
      | Stored m \<Rightarrow> Some ([], s\<lparr>mx := None, workers := (workers s)(t := Returned m)\<rparr>)
      | Returned m \<Rightarrow>
          Some ([Acked t m], s\<lparr>acked := acked s @ [m], workers := (workers s)(t := Idle)\<rparr>))"

text \<open>
  The entry of the callback with a message: \<open>json.Unmarshal\<close>, which touches no shared
  state, and the early return of \<open>parseMessage\<close> on its error.
\<close>

definition callback_entry ::
  "Lib \<Rightarrow> nat \<Rightarrow> nat \<Rightarrow> payload \<Rightarrow> sys \<Rightarrow> (event list \<times> sys) option" where
  "callback_entry L t m data s =
     (case workers s t of
        Idle \<Rightarrow>
          (case json_Unmarshal L data of
             Inl err \<Rightarrow> Some ([Dropped t m], s\<lparr>workers := (workers s)(t := Returned m)\<rparr>)
           | Inr pm \<Rightarrow> Some ([], s\<lparr>workers := (workers s)(t := Decoded m pm)\<rparr>))
      | _ \<Rightarrow> None)"

text \<open>The loop of \<open>flushMessages\<close>, one statement at a time.\<close>

definition flushMessages_step :: "Lib \<Rightarrow> sys \<Rightarrow> (event list \<times> sys) option" where
  "flushMessages_step L s =
     (case flusher s of
        Waiting \<Rightarrow> None
      | Ticked \<Rightarrow>
          (if mx s = None then Some ([], s\<lparr>mx := Some Flusher, flusher := Holding\<rparr>)
           else None)
      | Holding \<Rightarrow>
          (if length (elems (globalMessages s)) > 0 then
             Some ([], s\<lparr>globalMessages := (globalMessages s)
                            \<lparr>elems := sort_Slice L less_Timestamp (elems (globalMessages s))\<rparr>,
                          flusher := Sorted\<rparr>)
           else Some ([], s\<lparr>flusher := Unlocking\<rparr>))
      | Sorted \<Rightarrow>
          (case print_all (elems (globalMessages s)) (stdout s) of
             Inl p \<Rightarrow> Some ([], s\<lparr>flusher := Panicked p\<rparr>)
           | Inr out \<Rightarrow>
               Some ([Flushed (elems (globalMessages s))], s\<lparr>stdout := out, flusher := Printed\<rparr>))
      | Printed \<Rightarrow>
          Some ([], s\<lparr>globalMessages := make_slice (length (elems (globalMessages s))),
                      flusher := Unlocking\<rparr>)
      | Unlocking \<Rightarrow> Some ([], s\<lparr>mx := None, flusher := Waiting\<rparr>)
      | Panicked p \<Rightarrow> None)"

definition tick_step :: "sys \<Rightarrow> (event list \<times> sys) option" where
  "tick_step s =
     (case flusher s of
        Waiting \<Rightarrow> Some ([], s\<lparr>flusher := Ticked\<rparr>)
      | _ \<Rightarrow> None)"

fun step :: "Lib \<Rightarrow> action \<Rightarrow> sys \<Rightarrow> (event list \<times> sys) option" where
  "step L (Deliver t m data) s = callback_entry L t m data s"
| "step L (Work t) s = callback_step L t s"
| "step L Tick s = tick_step s"
| "step L Flush s = flushMessages_step L s"

text \<open>A schedule from a state: the events and the state it ends in, if every step is enabled.\<close>

fun exec :: "Lib \<Rightarrow> action list \<Rightarrow> sys \<Rightarrow> (event list \<times> sys) option" where
  "exec L [] s = Some ([], s)"
| "exec L (a # as) s =
     (case step L a s of
        None \<Rightarrow> None
      | Some (es, s') \<Rightarrow>
          (case exec L as s' of
             None \<Rightarrow> None
           | Some (es', s'') \<Rightarrow> Some (es @ es', s'')))"

text \<open>The records appended, the batches printed and the acknowledgements, in order.\<close>

fun appended :: "event list \<Rightarrow> ParsedMessage list" where
  "appended [] = []"
| "appended (Appended t m pm # es) = pm # appended es"
| "appended (e # es) = appended es"

fun flushed :: "event list \<Rightarrow> ParsedMessage list list" where
  "flushed [] = []"
| "flushed (Flushed b # es) = b # flushed es"
| "flushed (e # es) = flushed es"

text \<open>
  The records appended since the last batch was printed, and the runs of appended records
  that each printed batch closes, both in order of arrival.
\<close>

fun pending_from :: "ParsedMessage list \<Rightarrow> event list \<Rightarrow> ParsedMessage list" where
  "pending_from acc [] = acc"
| "pending_from acc (Appended t m pm # es) = pending_from (acc @ [pm]) es"
| "pending_from acc (Flushed b # es) = pending_from [] es"
| "pending_from acc (e # es) = pending_from acc es"

definition pending :: "event list \<Rightarrow> ParsedMessage list" where
  "pending es = pending_from [] es"

fun arrivals_from :: "ParsedMessage list \<Rightarrow> event list \<Rightarrow> ParsedMessage list list" where
  "arrivals_from acc [] = []"
| "arrivals_from acc (Appended t m pm # es) = arrivals_from (acc @ [pm]) es"
| "arrivals_from acc (Flushed b # es) = acc # arrivals_from [] es"
| "arrivals_from acc (e # es) = arrivals_from acc es"

definition arrivals :: "event list \<Rightarrow> ParsedMessage list list" where
  "arrivals es = arrivals_from [] es"

text \<open>
  How often worker \<open>t\<close> has acknowledged message \<open>m\<close>, and how often its
  \<open>parseMessage\<close> on \<open>m\<close> has come to its end (by the early return or by the append).
\<close>

fun is_ack :: "nat \<Rightarrow> nat \<Rightarrow> event \<Rightarrow> bool" where
  "is_ack t m (Acked t' m') = (t = t' \<and> m = m')"
| "is_ack t m e = False"

fun is_parsed :: "nat \<Rightarrow> nat \<Rightarrow> event \<Rightarrow> bool" where
  "is_parsed t m (Dropped t' m') = (t = t' \<and> m = m')"
| "is_parsed t m (Appended t' m' pm) = (t = t' \<and> m = m')"
| "is_parsed t m e = False"

definition acks :: "nat \<Rightarrow> nat \<Rightarrow> event list \<Rightarrow> nat" where
  "acks t m es = length (filter (is_ack t m) es)"

definition parses :: "nat \<Rightarrow> nat \<Rightarrow> event list \<Rightarrow> nat" where
  "parses t m es = length (filter (is_parsed t m) es)"

text \<open>
  The records in the buffer that no batch has printed yet. Between the printing of a
  batch and the reset, the buffer still holds the batch just printed.
\<close>

definition unflushed :: "sys \<Rightarrow> ParsedMessage list" where
  "unflushed s = (if flusher s = Printed then [] else elems (globalMessages s))"

text \<open>Where a goroutine stands between its \<open>mx.Lock()\<close> and its \<open>mx.Unlock()\<close>.\<close>

fun holds :: "wstate \<Rightarrow> bool" where
  "holds (Locked m pm) = True"
| "holds (Stored m) = True"
| "holds w = False"

fun flusher_holds :: "fstate \<Rightarrow> bool" where
  "flusher_holds Holding = True"
| "flusher_holds Sorted = True"
| "flusher_holds Printed = True"
| "flusher_holds Unlocking = True"
| "flusher_holds f = False"

text \<open>
  The invariant of the interleaving. The mutex is held by whoever stands in its critical
  section. The buffer holds the records appended since the last printed batch, sorted
  once the flusher has sorted, and the batch just printed until the reset. Every printed
  batch is the sort of a run of arrivals. What a worker has parsed it has acknowledged,
  or is about to, and never the other way round. Standard output holds the lines of the
  printed batches.
\<close>

definition mutex_inv :: "sys \<Rightarrow> bool" where
  "mutex_inv s \<longleftrightarrow>
     (\<forall>t. holds (workers s t) \<longrightarrow> mx s = Some (Worker t)) \<and>
     (flusher_holds (flusher s) \<longrightarrow> mx s = Some Flusher)"

definition buffer_inv :: "Lib \<Rightarrow> event list \<Rightarrow> sys \<Rightarrow> bool" where
  "buffer_inv L evs s \<longleftrightarrow>
     (case flusher s of
        Sorted \<Rightarrow> elems (globalMessages s) = sort_Slice L less_Timestamp (pending evs)
      | Printed \<Rightarrow>
          pending evs = [] \<and> flushed evs \<noteq> [] \<and> elems (globalMessages s) = last (flushed evs)
      | Unlocking \<Rightarrow> pending evs = [] \<and> elems (globalMessages s) = []
      | Panicked p \<Rightarrow> False
      | _ \<Rightarrow> elems (globalMessages s) = pending evs)"

definition batches_inv :: "Lib \<Rightarrow> event list \<Rightarrow> bool" where
  "batches_inv L evs \<longleftrightarrow> flushed evs = map (sort_Slice L less_Timestamp) (arrivals evs)"

definition parsed_unacked :: "nat \<Rightarrow> wstate \<Rightarrow> nat" where
  "parsed_unacked m w = (if w = Stored m \<or> w = Returned m then 1 else 0)"

definition ack_inv :: "event list \<Rightarrow> sys \<Rightarrow> bool" where
  "ack_inv evs s \<longleftrightarrow>
     (\<forall>t m. parses t m evs = acks t m evs + parsed_unacked m (workers s t)) \<and>
     (\<forall>n t m. acks t m (take n evs) \<le> parses t m (take n evs))"

definition stdout_inv :: "event list \<Rightarrow> sys \<Rightarrow> bool" where
  "stdout_inv evs s \<longleftrightarrow> stdout s = concat (map (\<lambda>b. concat (map lines_of b)) (flushed evs))"

definition pipeline_inv :: "Lib \<Rightarrow> event list \<Rightarrow> sys \<Rightarrow> bool" where
  "pipeline_inv L evs s \<longleftrightarrow>
     mutex_inv s \<and> buffer_inv L evs s \<and> batches_inv L evs \<and> ack_inv evs s \<and> stdout_inv evs s"

text \<open>
  The capacity of the buffer while it waits empty: the length of the last printed batch,
  and 0, the capacity of the nil slice, before the first. Only the reset after a printed
  batch sets a capacity; a pass that finds the buffer empty sets none.
\<close>

definition last_batch_length :: "event list \<Rightarrow> nat" where
  "last_batch_length evs = (if flushed evs = [] then 0 else length (last (flushed evs)))"

definition capacity_inv :: "event list \<Rightarrow> sys \<Rightarrow> bool" where
  "capacity_inv evs s \<longleftrightarrow>
     (flusher s \<noteq> Printed \<and> pending evs = [] \<longrightarrow>
        cap (globalMessages s) = last_batch_length evs)"

section \<open>Start-up\<close>

text \<open>
  The flag values after \<open>flag.Parse()\<close>: \<open>int\<close> and \<open>time.Duration\<close> are 64-bit signed
  integers, a duration counts nanoseconds.
\<close>

record Flags =
  flagProject :: string
  flagSubscription :: string
  flagReceiveGoroutines :: "64 word"
  flagFlushInterval :: "64 word"

definition Second :: "64 word" where
  "Second = 1000000000"

text \<open>
  The two warnings written to standard output, with the value each one prints, and the
  errors \<open>parseFlags\<close> returns: its own three and the error of a failed write.
\<close>

datatype warning = RoutinesWarning "64 word" | IntervalWarning "64 word"

datatype flag_error =
  MustProvideProject
  | MustProvideSubscription
  | FlushIntervalNotPositive "64 word"
  | WriteError warning

text \<open>
  \<open>fmt.Fprintf(os.Stdout, ...)\<close>: \<open>writable\<close> tells whether standard output takes the
  text. The result is what has been written and the error, if any.
\<close>

definition parseFlags :: "(warning \<Rightarrow> bool) \<Rightarrow> Flags \<Rightarrow> warning list \<times> flag_error option" where
  "parseFlags writable fl =
     (if flagProject fl = [] then ([], Some MustProvideProject)
      else if flagSubscription fl = [] then ([], Some MustProvideSubscription)
      else
        (let w1 = RoutinesWarning (flagReceiveGoroutines fl);
             w2 = IntervalWarning (flagFlushInterval fl);
             warn1 = (sint (flagReceiveGoroutines fl) < 1)
         in if warn1 \<and> \<not> writable w1 then ([], Some (WriteError w1))
            else
              (let out = (if warn1 then [w1] else [])
               in if sint (flagFlushInterval fl) < 1 then
                    (out, Some (FlushIntervalNotPositive (flagFlushInterval fl)))
                  else if sint (flagFlushInterval fl) < sint Second then
                    (if writable w2 then (out @ [w2], None) else (out, Some (WriteError w2)))
                  else (out, None))))"

text \<open>
  The head of \<open>main\<close>: an error of \<open>parseFlags\<close> goes to standard error and the process
  exits with code 1; otherwise \<open>main\<close> goes on to \<open>subscribeToPubSub\<close>.
\<close>

datatype startup = Exit nat flag_error | Subscribing

definition main_startup :: "(warning \<Rightarrow> bool) \<Rightarrow> Flags \<Rightarrow> warning list \<times> startup" where
  "main_startup writable fl =
     (case parseFlags writable fl of
        (out, Some err) \<Rightarrow> (out, Exit 1 err)
      | (out, None) \<Rightarrow> (out, Subscribing))"

section \<open>An instance of the library\<close>

text \<open>
  \<open>sort.Slice\<close> of Go 1.16.4, the toolchain the Dockerfile builds with, sorts a slice of
  at most twelve elements without partitioning it: one pass that compares the elements
  six apart, then insertion sort. The instance runs these two steps on a slice of any
  length, so that it sorts every slice and is that \<open>sort.Slice\<close> up to twelve elements.
\<close>

definition swap :: "nat \<Rightarrow> nat \<Rightarrow> 'a list \<Rightarrow> 'a list" where
  "swap i j xs = xs[i := xs ! j, j := xs ! i]"

text \<open>\<open>for j := i; j > a && less(j, j-1); j-- { swap(j, j-1) }\<close>\<close>

fun insertion_inner :: "('a \<Rightarrow> 'a \<Rightarrow> bool) \<Rightarrow> nat \<Rightarrow> nat \<Rightarrow> 'a list \<Rightarrow> 'a list" where
  "insertion_inner lt a j xs =
     (if a < j \<and> lt (xs ! j) (xs ! (j - 1))
      then insertion_inner lt a (j - 1) (swap j (j - 1) xs)
      else xs)"

declare insertion_inner.simps [simp del]

text \<open>\<open>for i := a + 1; i < b; i++\<close>\<close>

function insertion_outer :: "('a \<Rightarrow> 'a \<Rightarrow> bool) \<Rightarrow> nat \<Rightarrow> nat \<Rightarrow> nat \<Rightarrow> 'a list \<Rightarrow> 'a list" where
  "insertion_outer lt a b i xs =
     (if i < b then insertion_outer lt a b (Suc i) (insertion_inner lt a i xs) else xs)"
  by pat_completeness auto
termination
  by (relation "measure (\<lambda>(lt, a, b, i, xs). b - i)") auto

declare insertion_outer.simps [simp del]

definition insertionSort_func :: "('a \<Rightarrow> 'a \<Rightarrow> bool) \<Rightarrow> 'a list \<Rightarrow> nat \<Rightarrow> nat \<Rightarrow> 'a list" where
  "insertionSort_func lt xs a b = insertion_outer lt a b (a + 1) xs"

text \<open>\<open>for i := a + 6; i < b; i++ { if less(i, i-6) { swap(i, i-6) } }\<close>\<close>

function gap_pass :: "('a \<Rightarrow> 'a \<Rightarrow> bool) \<Rightarrow> nat \<Rightarrow> nat \<Rightarrow> 'a list \<Rightarrow> 'a list" where
  "gap_pass lt b i xs =
     (if i < b then
        gap_pass lt b (Suc i) (if lt (xs ! i) (xs ! (i - 6)) then swap i (i - 6) xs else xs)
      else xs)"
  by pat_completeness auto
termination
  by (relation "measure (\<lambda>(lt, b, i, xs). b - i)") auto

declare gap_pass.simps [simp del]

text \<open>\<open>quickSort_func\<close> once the range has at most twelve elements.\<close>

definition quickSort_small :: "('a \<Rightarrow> 'a \<Rightarrow> bool) \<Rightarrow> 'a list \<Rightarrow> nat \<Rightarrow> nat \<Rightarrow> 'a list" where
  "quickSort_small lt xs a b =
     (if b - a > 1 then insertionSort_func lt (gap_pass lt b (a + 6) xs) a b else xs)"

definition sort_Slice_small :: "('a \<Rightarrow> 'a \<Rightarrow> bool) \<Rightarrow> 'a list \<Rightarrow> 'a list" where
  "sort_Slice_small lt xs = quickSort_small lt xs 0 (length xs)"

text \<open>
  A parser of RFC 3339 timestamps in their strict form (date, \<open>T\<close>, time of day, at most
  nine digits of fraction, \<open>Z\<close> or a numeric offset), all of which \<open>time.Parse\<close> accepts
  with the same result, and a doubling growth of capacity complete the instance. They are
  used on the examples only.
\<close>

definition is_digit :: "char \<Rightarrow> bool" where
  "is_digit c = (48 \<le> (of_char c :: int) \<and> (of_char c :: int) \<le> 57)"

definition number :: "string \<Rightarrow> int option" where
  "number s =
     (if s \<noteq> [] \<and> list_all is_digit s
      then Some (foldl (\<lambda>a c. 10 * a + (of_char c - 48)) 0 s)
      else None)"

definition leap :: "int \<Rightarrow> bool" where
  "leap y = (y mod 4 = 0 \<and> (y mod 100 \<noteq> 0 \<or> y mod 400 = 0))"

definition daysIn :: "int \<Rightarrow> int \<Rightarrow> int" where
  "daysIn m y =
     (if m = 2 then (if leap y then 29 else 28)
      else if m = 4 \<or> m = 6 \<or> m = 9 \<or> m = 11 then 30
      else 31)"

definition days_of_date :: "int \<Rightarrow> int \<Rightarrow> int \<Rightarrow> int" where
  "days_of_date y m d =
     (let y1 = (if m \<le> 2 then y - 1 else y);
          era = y1 div 400;
          yoe = y1 mod 400;
          doy = (153 * (if m > 2 then m - 3 else m + 9) + 2) div 5 + d - 1;
          doe = yoe * 365 + yoe div 4 - yoe div 100 + doy
      in era * 146097 + doe - 719468)"

definition parse_fraction :: "string \<Rightarrow> (int \<times> string) option" where
  "parse_fraction r =
     (case r of
        [] \<Rightarrow> Some (0, [])
      | c # r' \<Rightarrow>
          if c = CHR ''.'' then
            (let ds = takeWhile is_digit r'
             in case number ds of
                  None \<Rightarrow> None
                | Some n \<Rightarrow>
                    if length ds \<le> 9 then Some (n * 10 ^ (9 - length ds), dropWhile is_digit r')
                    else None)
          else Some (0, r))"

definition parse_zone :: "string \<Rightarrow> int option" where
  "parse_zone r =
     (if r = ''Z'' then Some 0
      else if length r = 6 \<and> r ! 3 = CHR '':'' \<and> (r ! 0 = CHR ''+'' \<or> r ! 0 = CHR ''-'') then
        (case (number (take 2 (drop 1 r)), number (drop 4 r)) of
           (Some h, Some m) \<Rightarrow>
             Some ((if r ! 0 = CHR ''-'' then - 1 else 1) * (h * 60 + m) * 60)
         | _ \<Rightarrow> None)
      else None)"

definition parse_RFC3339 :: "string \<Rightarrow> Time option" where
  "parse_RFC3339 s =
     (if length s < 20 \<or> s ! 4 \<noteq> CHR ''-'' \<or> s ! 7 \<noteq> CHR ''-'' \<or> s ! 10 \<noteq> CHR ''T'' \<or>
         s ! 13 \<noteq> CHR '':'' \<or> s ! 16 \<noteq> CHR '':'' then None
      else
        (case (number (take 4 s), number (take 2 (drop 5 s)), number (take 2 (drop 8 s))) of
           (Some y, Some mo, Some d) \<Rightarrow>
             (case (number (take 2 (drop 11 s)), number (take 2 (drop 14 s)),
                    number (take 2 (drop 17 s))) of
                (Some h, Some mi, Some se) \<Rightarrow>
                  (if 1 \<le> mo \<and> mo \<le> 12 \<and> 1 \<le> d \<and> d \<le> daysIn mo y \<and> h < 24 \<and> mi < 60 \<and> se < 60
                   then
                     (case parse_fraction (drop 19 s) of
                        None \<Rightarrow> None
                      | Some (ns, rest) \<Rightarrow>
                          (case parse_zone rest of
                             None \<Rightarrow> None
                           | Some off \<Rightarrow>
                               Some \<lparr>unixNano =
                                       (days_of_date y mo d * 86400 + h * 3600 + mi * 60 + se -
                                        off) * 1000000000 + ns,
                                     zoneOffset = off\<rparr>))
                   else None)
              | _ \<Rightarrow> None)
         | _ \<Rightarrow> None))"

definition go116 :: Lib where
  "go116 =
     \<lparr>time_Parse = parse_RFC3339,
      growslice = (\<lambda>c. if c = 0 then 1 else 2 * c),
      sort_Slice = sort_Slice_small\<rparr>"

section \<open>Properties of the emission loop\<close>

lemma digit_zero_iff: "digit n = CHR ''0'' \<longleftrightarrow> n mod 10 = 0"
proof -
  define m where "m = n mod 10"
  have "m \<in> set [0..<10]" by (simp add: m_def)
  also have "[0..<10] = [0, 1, 2, 3, 4, 5, 6, 7, 8, 9::nat]" by code_simp
  finally have "(''0123456789'' ! m = CHR ''0'') = (m = 0)"
    by auto
  then show ?thesis by (simp add: digit_def m_def)
qed

lemma digit_mod_zero_iff: "digit (nat (u mod 10)) = CHR ''0'' \<longleftrightarrow> u mod 10 = 0"
proof -
  have "0 \<le> u mod 10" "u mod 10 < 10" by simp_all
  then have "nat (u mod 10) mod 10 = nat (u mod 10)" by simp
  then show ?thesis using \<open>0 \<le> u mod 10\<close> by (auto simp: digit_zero_iff)
qed

lemma length_fill: "length (fill k u) = k"
  by (induction k arbitrary: u) auto

lemma mod_pow10_Suc:
  "(u::int) mod 10 ^ Suc k = 0 \<longleftrightarrow> u mod 10 = 0 \<and> (u div 10) mod 10 ^ k = 0"
proof (cases "10 dvd u")
  case True
  then have "10 ^ k dvd u div 10 \<longleftrightarrow> 10 ^ k * 10 dvd u"
    by (simp add: dvd_div_iff_mult)
  with True show ?thesis by (simp add: mod_eq_0_iff_dvd mult.commute)
next
  case False
  then have "\<not> 10 * 10 ^ k dvd u" using dvd_mult_left by blast
  with False show ?thesis by (simp add: mod_eq_0_iff_dvd)
qed

lemma fill_zeros_iff: "set (fill k u) \<subseteq> {CHR ''0''} \<longleftrightarrow> u mod 10 ^ k = 0"
proof (induction k arbitrary: u)
  case 0
  then show ?case by simp
next
  case (Suc k)
  show ?case using Suc[of "u div 10"] mod_pow10_Suc[of u k]
    by (simp add: digit_mod_zero_iff)
qed

lemma trimZeros_Nil_iff: "trimZeros buf = [] \<longleftrightarrow> set buf \<subseteq> {CHR ''0''}"
  by (auto simp: trimZeros_def dropWhile_eq_Nil_conv)

lemma last_trimZeros:
  assumes "trimZeros buf \<noteq> []"
  shows "last (trimZeros buf) \<noteq> CHR ''0''"
proof -
  let ?ys = "dropWhile (\<lambda>c. c = CHR ''0'') (rev buf)"
  have "?ys \<noteq> []" using assms by (simp add: trimZeros_def)
  then have "\<not> (hd ?ys = CHR ''0'')" by (rule hd_dropWhile)
  moreover have "last (trimZeros buf) = hd ?ys" by (simp add: trimZeros_def last_rev)
  ultimately show ?thesis by simp
qed

lemma length_trimZeros: "length (trimZeros buf) \<le> length buf"
  using length_dropWhile_le[of "\<lambda>c. c = CHR ''0''" "rev buf"] by (simp add: trimZeros_def)

lemma trimZeros_full_iff:
  assumes "buf \<noteq> []"
  shows "length (trimZeros buf) = length buf \<longleftrightarrow> last buf \<noteq> CHR ''0''"
proof -
  obtain ys y where buf: "buf = ys @ [y]" using assms by (cases buf rule: rev_cases) auto
  have "length (dropWhile (\<lambda>c. c = CHR ''0'') (rev ys)) \<le> length ys"
    using length_dropWhile_le[of _ "rev ys"] by simp
  then show ?thesis by (auto simp: buf trimZeros_def)
qed

lemma nanosecond_range: "0 \<le> nanosecond t \<and> nanosecond t < 1000000000"
  by (simp add: nanosecond_def)

lemma last_fill9: "last (fill 9 n) = digit (nat (n mod 10))"
proof -
  have "fill (Suc 8) n = fill 8 (n div 10) @ [digit (nat (n mod 10))]" by (rule fill.simps)
  moreover have "Suc 8 = 9" by simp
  ultimately show ?thesis by (metis last_snoc)
qed

lemma formatNano_Nil_iff:
  assumes "0 \<le> n" and "n < 1000000000"
  shows "formatNano n = [] \<longleftrightarrow> n = 0"
proof -
  have "n mod 10 ^ 9 = n" using assms by simp
  then have "set (fill 9 n) \<subseteq> {CHR ''0''} \<longleftrightarrow> n = 0" by (simp only: fill_zeros_iff)
  then have "trimZeros (fill 9 n) = [] \<longleftrightarrow> n = 0" by (simp only: trimZeros_Nil_iff)
  then show ?thesis unfolding formatNano_def Let_def by (simp split: if_splits)
qed

lemma formatNano_shape:
  "formatNano n \<noteq> [] \<Longrightarrow> hd (formatNano n) = CHR ''.'' \<and> last (formatNano n) \<noteq> CHR ''0''"
  using last_trimZeros[of "fill 9 n"] by (auto simp: formatNano_def Let_def)

lemma length_formatNano: "length (formatNano n) \<le> 10"
  using length_trimZeros[of "fill 9 n"] by (auto simp: formatNano_def Let_def length_fill)

lemma formatNano_nine_iff: "length (formatNano n) = 10 \<longleftrightarrow> n mod 10 \<noteq> 0"
proof -
  have ne: "fill 9 n \<noteq> []" using length_fill[of 9 n] by auto
  have "length (trimZeros (fill 9 n)) = 9 \<longleftrightarrow> n mod 10 \<noteq> 0"
    using trimZeros_full_iff[OF ne] by (simp add: length_fill last_fill9 digit_mod_zero_iff)
  then show ?thesis by (auto simp: formatNano_def Let_def)
qed

lemma print_msg_entry:
  assumes "TextPayload msg \<noteq> []" and "hd (TextPayload msg) = CHR ''[''"
  shows "print_msg msg =
           Inr [''['' @ Format (Timestamp msg) @ '']: '' @ TextPayload msg @ newline]"
  using assms by (simp add: print_msg_def index_byte_def Printf_entry_def hd_conv_nth)



lemma print_msg_total: "\<exists>ls. print_msg msg = Inr ls"
  by (simp add: print_msg_def index_byte_def)


lemma print_all_total: "\<exists>out'. print_all msgs out = Inr out'"
proof (induction msgs arbitrary: out)
  case Nil
  then show ?case by simp
next
  case (Cons msg msgs)
  obtain ls where "print_msg msg = Inr ls" using print_msg_total by blast
  then show ?case using Cons[of "out @ ls"] by simp
qed

lemma length_dec_pos: "0 < length (dec n)"
  by (subst dec.simps) simp

lemma length_dec2:
  assumes "n < 100"
  shows "length (dec n) \<le> 2"
proof (cases "n < 10")
  case True
  then show ?thesis by (subst dec.simps) simp
next
  case False
  have "n div 10 < 10" using assms by simp
  then have "dec (n div 10) = [digit (nat (n div 10))]" by (subst dec.simps) simp
  with False show ?thesis by (subst dec.simps) simp
qed

lemma length_appendInt2:
  assumes "0 \<le> x" and "x \<le> 99"
  shows "length (appendInt x 2) = 2"
proof -
  have "\<bar>x\<bar> < 100" using assms by simp
  then show ?thesis
    using length_dec2[of "\<bar>x\<bar>"] length_dec_pos[of "\<bar>x\<bar>"] assms
    by (simp add: appendInt_def Let_def)
qed

lemma Format_shape:
  "\<exists>date clock. length clock = 8 \<and>
     Format t = date @ '' '' @ clock @ formatNano (nanosecond t) @ '' UTC''"
proof -
  obtain year month day where d: "date_of_days (localSec t div 86400) = (year, month, day)"
    by (cases "date_of_days (localSec t div 86400)")
  define sod where "sod = localSec t mod 86400"
  define clock where "clock = appendInt (sod div 3600) 2 @ '':'' @
         appendInt (sod mod 3600 div 60) 2 @ '':'' @ appendInt (sod mod 60) 2"
  have s: "0 \<le> sod" "sod \<le> 86399"
    using pos_mod_bound[of 86400 "localSec t"] by (simp_all add: sod_def)
  have "sod div 3600 \<le> 86399 div 3600" using s(2) by (rule zdiv_mono1) simp
  then have "0 \<le> sod div 3600" "sod div 3600 \<le> 99"
    using s(1) by (simp_all add: pos_imp_zdiv_nonneg_iff)
  then have 1: "length (appendInt (sod div 3600) 2) = 2" by (rule length_appendInt2)
  have "sod mod 3600 \<le> 3599" using pos_mod_bound[of 3600 sod] by simp
  then have "sod mod 3600 div 60 \<le> 3599 div 60" by (rule zdiv_mono1) simp
  then have "0 \<le> sod mod 3600 div 60" "sod mod 3600 div 60 \<le> 99"
    by (simp_all add: pos_imp_zdiv_nonneg_iff)
  then have 2: "length (appendInt (sod mod 3600 div 60) 2) = 2" by (rule length_appendInt2)
  have "0 \<le> sod mod 60" "sod mod 60 \<le> 99"
    using pos_mod_bound[of 60 sod] by simp_all
  then have 3: "length (appendInt (sod mod 60) 2) = 2" by (rule length_appendInt2)
  have "length clock = 8" using 1 2 3 by (simp add: clock_def)
  moreover have "Format t = (appendInt year 4 @ ''-'' @ appendInt month 2 @ ''-'' @ appendInt day 2)
      @ '' '' @ clock @ formatNano (nanosecond t) @ '' UTC''"
    by (simp add: Format_def d Let_def clock_def sod_def)
  ultimately show ?thesis by blast
qed



text \<open>
  Claim C4, as stated: the stamp of an entry line always carries nine digits of
  fraction. It does not for a record at 2021-03-01T12:00:00Z, whose line is
  \<open>[2021-03-01 12:00:00 UTC]: [start of entry]\<close>.
\<close>

theorem nine_fraction_digits_counterexample:
  "print_msg \<lparr>TextPayload = ''[start of entry]'',
              Timestamp = \<lparr>unixNano = 1614600000000000000, zoneOffset = 0\<rparr>\<rparr> =
     Inr [''[2021-03-01 12:00:00 UTC]: [start of entry]'' @ newline] \<and>
   \<not> (\<exists>stamp frac. length frac = 9 \<and>
        print_msg \<lparr>TextPayload = ''[start of entry]'',
                   Timestamp = \<lparr>unixNano = 1614600000000000000, zoneOffset = 0\<rparr>\<rparr> =
          Inr [''['' @ stamp @ ''.'' @ frac @ '' UTC]: [start of entry]'' @ newline])"
proof -
  let ?msg = "\<lparr>TextPayload = ''[start of entry]'',
               Timestamp = \<lparr>unixNano = 1614600000000000000, zoneOffset = 0\<rparr>\<rparr>"
  have v: "print_msg ?msg = Inr [''[2021-03-01 12:00:00 UTC]: [start of entry]'' @ newline]"
    by code_simp
  have "False"
    if "print_msg ?msg = Inr [''['' @ stamp @ ''.'' @ frac @ '' UTC]: [start of entry]'' @ newline]"
    for stamp frac
  proof -
    have e: "''[2021-03-01 12:00:00 UTC]: [start of entry]'' @ newline =
            ''['' @ stamp @ ''.'' @ frac @ '' UTC]: [start of entry]'' @ newline"
      using that unfolding v by (simp only: sum.inject list.inject simp_thms)
    have "CHR ''.'' \<in> set (''['' @ stamp @ ''.'' @ frac @ '' UTC]: [start of entry]'' @ newline)"
      by simp
    then have "CHR ''.'' \<in> set (''[2021-03-01 12:00:00 UTC]: [start of entry]'' @ newline)"
      by (simp only: e)
    then show False by (simp add: newline_def)
  qed
  then show ?thesis using v by blast
qed

text \<open>
  Claim C4, amended. A record whose text is not empty and starts with \<open>[\<close> writes
  \<open>[<stamp>]: <text>\<close> and a newline. The stamp is the date, a space, the eight
  characters of the time of day (both on the clock of the timestamp's own zone), the
  fraction of the second and \<open> UTC\<close>. The fraction has its trailing zeros removed: it is
  empty when the nanoseconds are zero, otherwise a point and at most nine digits, the
  last of them not zero, and nine digits exactly when the nanoseconds are no multiple of
  ten.
\<close>

theorem entry_line_format:
  assumes "TextPayload msg \<noteq> []" and "hd (TextPayload msg) = CHR ''[''"
  shows "print_msg msg =
           Inr [''['' @ Format (Timestamp msg) @ '']: '' @ TextPayload msg @ newline] \<and>
         (\<exists>date clock. length clock = 8 \<and>
            Format (Timestamp msg) =
              date @ '' '' @ clock @ formatNano (nanosecond (Timestamp msg)) @ '' UTC'') \<and>
         (formatNano (nanosecond (Timestamp msg)) = [] \<longleftrightarrow> nanosecond (Timestamp msg) = 0) \<and>
         (formatNano (nanosecond (Timestamp msg)) \<noteq> [] \<longrightarrow>
            hd (formatNano (nanosecond (Timestamp msg))) = CHR ''.'' \<and>
            last (formatNano (nanosecond (Timestamp msg))) \<noteq> CHR ''0'') \<and>
         length (formatNano (nanosecond (Timestamp msg))) \<le> 10 \<and>
         (length (formatNano (nanosecond (Timestamp msg))) = 10 \<longleftrightarrow>
            nanosecond (Timestamp msg) mod 10 \<noteq> 0)"
proof -
  have r: "0 \<le> nanosecond (Timestamp msg)" "nanosecond (Timestamp msg) < 1000000000"
    using nanosecond_range by simp_all
  show ?thesis
    using print_msg_entry[OF assms] Format_shape[of "Timestamp msg"]
      formatNano_Nil_iff[OF r]
      formatNano_shape[of "nanosecond (Timestamp msg)"]
      length_formatNano[of "nanosecond (Timestamp msg)"]
      formatNano_nine_iff[of "nanosecond (Timestamp msg)"]
    by blast
qed

text \<open>The example of the specification: 2021-03-01T12:00:00.123456789Z.\<close>

theorem entry_line_format_witness:
  "print_msg \<lparr>TextPayload = ''[start of entry]'',
              Timestamp = \<lparr>unixNano = 1614600000123456789, zoneOffset = 0\<rparr>\<rparr> =
     Inr [''[2021-03-01 12:00:00.123456789 UTC]: [start of entry]'' @ newline]"
proof -
  have f: "Format \<lparr>unixNano = 1614600000123456789, zoneOffset = 0\<rparr> =
             ''2021-03-01 12:00:00.123456789 UTC''"
    by code_simp
  show ?thesis
    using entry_line_format
      [of "\<lparr>TextPayload = ''[start of entry]'',
            Timestamp = \<lparr>unixNano = 1614600000123456789, zoneOffset = 0\<rparr>\<rparr>"]
    by (simp add: f)
qed

section \<open>Properties of the decoder\<close>

lemma decodeFields_ok:
  "list_all (member_ok L) kvs \<Longrightarrow>
     \<exists>pm. decodeFields L kvs pm0 None = Inr pm \<and>
       (\<not> has_field FTextPayload kvs \<longrightarrow> TextPayload pm = TextPayload pm0) \<and>
       (\<not> has_field FTimestamp kvs \<longrightarrow> Timestamp pm = Timestamp pm0)"
proof (induction kvs arbitrary: pm0)
  case Nil
  then show ?case by (simp add: has_field_def)
next
  case (Cons kv kvs)
  obtain key v where kv: "kv = (key, v)" by (cases kv)
  have ok: "member_ok L (key, v)" and rest: "list_all (member_ok L) kvs"
    using Cons.prems by (simp_all add: kv)
  show ?case
  proof (cases "findField key")
    case None
    then show ?thesis using Cons.IH[OF rest, of pm0] by (simp add: kv has_field_def)
  next
    case (Some f)
    show ?thesis
    proof (cases f)
      case FTextPayload
      show ?thesis
      proof (cases v)
        case (JString raw s)
        then show ?thesis
          using Some FTextPayload Cons.IH[OF rest, of "pm0\<lparr>TextPayload := s\<rparr>"]
          by (auto simp: kv has_field_def)
      next
        case JNull
        then show ?thesis
          using Some FTextPayload Cons.IH[OF rest, of pm0] by (auto simp: kv has_field_def)
      qed (use ok Some FTextPayload in simp_all)
    next
      case FTimestamp
      show ?thesis
      proof (cases v)
        case (JString raw s)
        then obtain t where t: "time_Parse L raw = Some t"
          using ok Some FTimestamp by auto
        show ?thesis
          using JString t Some FTimestamp Cons.IH[OF rest, of "pm0\<lparr>Timestamp := t\<rparr>"]
          by (auto simp: kv has_field_def)
      next
        case JNull
        then show ?thesis
          using Some FTimestamp Cons.IH[OF rest, of pm0] by (auto simp: kv has_field_def)
      qed (use ok Some FTimestamp in simp_all)
    qed
  qed
qed

text \<open>
  Claim C3, as stated: a payload that is valid JSON and lacks a required field leaves the
  buffer as it was. The object \<open>{"textPayload": "[start of entry]"}\<close> has no timestamp,
  and \<open>parseMessage\<close> appends a record for it, with the zero time.
\<close>

theorem missing_field_counterexample:
  "parseMessage go116 (Valid (JObject [(''textPayload'', JString ''[start of entry]'' ''[start of entry]'')])) nilSlice =
     \<lparr>elems = [\<lparr>TextPayload = ''[start of entry]'', Timestamp = zeroTime\<rparr>], cap = 1\<rparr> \<and>
   \<not> has_field FTimestamp [(''textPayload'', JString ''[start of entry]'' ''[start of entry]'')] \<and>
   parseMessage go116 (Valid (JObject [(''textPayload'', JString ''[start of entry]'' ''[start of entry]'')])) nilSlice
     \<noteq> nilSlice"
  by (simp add: parseMessage_def json_Unmarshal_def findField_def zeroMessage_def
      append_slice_def nilSlice_def go116_def has_field_def)

text \<open>
  Claim C3, amended. A field that is missing is no error for \<open>json.Unmarshal\<close>: when the
  members an object does have decode, \<open>parseMessage\<close> appends exactly one record, and a
  field that no key of the object selects has its zero value in it, the empty text or
  the zero time.
\<close>

theorem missing_field_zero_value:
  assumes "list_all (member_ok L) kvs"
  shows "\<exists>pm. json_Unmarshal L (Valid (JObject kvs)) = Inr pm \<and>
           parseMessage L (Valid (JObject kvs)) gm = append_slice L gm pm \<and>
           elems (parseMessage L (Valid (JObject kvs)) gm) = elems gm @ [pm] \<and>
           (\<not> has_field FTextPayload kvs \<longrightarrow> TextPayload pm = []) \<and>
           (\<not> has_field FTimestamp kvs \<longrightarrow> Timestamp pm = zeroTime)"
proof -
  obtain pm where "decodeFields L kvs zeroMessage None = Inr pm"
    and "\<not> has_field FTextPayload kvs \<longrightarrow> TextPayload pm = TextPayload zeroMessage"
    and "\<not> has_field FTimestamp kvs \<longrightarrow> Timestamp pm = Timestamp zeroMessage"
    using decodeFields_ok[OF assms, of zeroMessage] by blast
  then show ?thesis
    by (simp add: json_Unmarshal_def parseMessage_def append_slice_def zeroMessage_def)
qed

theorem missing_field_zero_value_witness:
  "\<exists>pm. json_Unmarshal go116 (Valid (JObject [(''timestamp'', JString ''2021-03-01T12:00:00Z'' ''2021-03-01T12:00:00Z'')])) =
          Inr pm \<and>
        elems (parseMessage go116
                 (Valid (JObject [(''timestamp'', JString ''2021-03-01T12:00:00Z'' ''2021-03-01T12:00:00Z'')])) nilSlice) =
          [pm] \<and>
        TextPayload pm = []"
proof -
  have p: "parse_RFC3339 ''2021-03-01T12:00:00Z'' =
             Some \<lparr>unixNano = 1614600000000000000, zoneOffset = 0\<rparr>"
    by code_simp
  have h: "list_all (member_ok go116) [(''timestamp'', JString ''2021-03-01T12:00:00Z'' ''2021-03-01T12:00:00Z'')]"
    by (simp add: findField_def go116_def p)
  have n: "\<not> has_field FTextPayload [(''timestamp'', JString ''2021-03-01T12:00:00Z'' ''2021-03-01T12:00:00Z'')]"
    by (simp add: has_field_def findField_def)
  show ?thesis
    using missing_field_zero_value[OF h, of nilSlice] n by (auto simp: nilSlice_def)
qed

section \<open>Properties of the start-up\<close>

lemma parseFlags_error_iff:
  "(\<exists>e. snd (parseFlags writable fl) = Some e) \<longleftrightarrow>
     flagProject fl = [] \<or> flagSubscription fl = [] \<or> sint (flagFlushInterval fl) \<le> 0 \<or>
     (sint (flagReceiveGoroutines fl) < 1 \<and> \<not> writable (RoutinesWarning (flagReceiveGoroutines fl))) \<or>
     (sint (flagFlushInterval fl) < sint Second \<and> \<not> writable (IntervalWarning (flagFlushInterval fl)))"
  by (auto simp: parseFlags_def Let_def)

lemma parseFlags_ok_output:
  "snd (parseFlags writable fl) = None \<Longrightarrow>
     fst (parseFlags writable fl) =
       (if sint (flagReceiveGoroutines fl) < 1 then [RoutinesWarning (flagReceiveGoroutines fl)] else []) @
       (if sint (flagFlushInterval fl) < sint Second then [IntervalWarning (flagFlushInterval fl)] else [])"
  by (auto simp: parseFlags_def Let_def split: if_splits)

text \<open>
  Claim C9, as stated: the process exits at start-up if and only if the project is empty,
  the subscription is empty or the flush interval is not positive. With a worker count
  of 0, and standard output refusing the warning, it exits with code 1 though none of the
  three holds: \<open>parseFlags\<close> returns the error of the write.
\<close>

theorem startup_failure_counterexample:
  "main_startup (\<lambda>w. False)
     \<lparr>flagProject = ''p'', flagSubscription = ''s'', flagReceiveGoroutines = 0,
      flagFlushInterval = 5000000000\<rparr> =
     ([], Exit 1 (WriteError (RoutinesWarning 0))) \<and>
   ''p'' \<noteq> [] \<and> ''s'' \<noteq> [] \<and> \<not> sint (5000000000 :: 64 word) \<le> 0"
  by (simp add: main_startup_def parseFlags_def)

text \<open>
  Claim C9, amended. \<open>main\<close> exits with code 1 before subscribing if and only if the
  project is empty, the subscription is empty, the flush interval is not positive, or a
  warning is due (a worker count below 1, a flush interval below one second) and writing
  it to standard output fails. In every other case it goes on to subscribe, having
  written exactly the warnings that are due.
\<close>

theorem startup_failure_iff:
  "((\<exists>out e. main_startup writable fl = (out, Exit 1 e)) \<longleftrightarrow>
      flagProject fl = [] \<or> flagSubscription fl = [] \<or> sint (flagFlushInterval fl) \<le> 0 \<or>
      (sint (flagReceiveGoroutines fl) < 1 \<and>
         \<not> writable (RoutinesWarning (flagReceiveGoroutines fl))) \<or>
      (sint (flagFlushInterval fl) < sint Second \<and>
         \<not> writable (IntervalWarning (flagFlushInterval fl)))) \<and>
   ((\<exists>out e. main_startup writable fl = (out, Exit 1 e)) \<or>
      main_startup writable fl =
        ((if sint (flagReceiveGoroutines fl) < 1
          then [RoutinesWarning (flagReceiveGoroutines fl)] else []) @
         (if sint (flagFlushInterval fl) < sint Second
          then [IntervalWarning (flagFlushInterval fl)] else []),
         Subscribing))"
proof -
  obtain out r where p: "parseFlags writable fl = (out, r)" by (cases "parseFlags writable fl")
  have 1: "(\<exists>out e. main_startup writable fl = (out, Exit 1 e)) \<longleftrightarrow> (\<exists>e. r = Some e)"
    by (cases r) (simp_all add: main_startup_def p)
  have 2: "r = None \<Longrightarrow> main_startup writable fl = (out, Subscribing)"
    by (simp add: main_startup_def p)
  show ?thesis
    using 1 2 parseFlags_error_iff[of writable fl] parseFlags_ok_output[of writable fl]
    by (cases r) (simp_all add: p)
qed

theorem startup_failure_iff_witness:
  "main_startup (\<lambda>w. True)
     \<lparr>flagProject = ''p'', flagSubscription = ''s'', flagReceiveGoroutines = 0,
      flagFlushInterval = 500000000\<rparr> =
     ([RoutinesWarning 0, IntervalWarning 500000000], Subscribing) \<and>
   (\<exists>out e. main_startup (\<lambda>w. True)
     \<lparr>flagProject = [], flagSubscription = ''s'', flagReceiveGoroutines = 4,
      flagFlushInterval = 5000000000\<rparr> = (out, Exit 1 e))"
  using startup_failure_iff [of "\<lambda>w. True"
      "\<lparr>flagProject = ''p'', flagSubscription = ''s'', flagReceiveGoroutines = 0,
        flagFlushInterval = 500000000\<rparr>"]
    startup_failure_iff [of "\<lambda>w. True"
      "\<lparr>flagProject = [], flagSubscription = ''s'', flagReceiveGoroutines = 4,
        flagFlushInterval = 5000000000\<rparr>"]
  by (auto simp: Second_def)

section \<open>Properties of the instance of \<open>sort.Slice\<close>\<close>

lemma swap_adjacent:
  "length P = j \<Longrightarrow> swap (Suc j) j (P @ y # x # R) = P @ x # y # R"
  by (simp add: swap_def nth_append list_update_append)

lemma insertion_inner_insert:
  assumes lt: "\<And>x y. lt x y = (f x < (f y :: 'k :: linorder))"
  shows "length P = j \<Longrightarrow>
           \<exists>P'. insertion_inner lt 0 j (P @ x # R) = P' @ R \<and> length P' = Suc j \<and>
             mset P' = mset (P @ [x]) \<and>
             (sorted (map f P) \<longrightarrow> sorted (map f P')) \<and>
             (\<forall>k. filter (\<lambda>y. f y = k) P' = filter (\<lambda>y. f y = k) (P @ [x]))"
proof (induction j arbitrary: P R)
  case 0
  then show ?case by (subst insertion_inner.simps) simp
next
  case (Suc j)
  then obtain P0 y where P: "P = P0 @ [y]" and len: "length P0 = j"
    by (cases P rule: rev_cases) auto
  have nth: "(P @ x # R) ! Suc j = x" "(P @ x # R) ! j = y"
    using len by (simp_all add: P nth_append)
  show ?case
  proof (cases "lt x y")
    case True
    have sw: "swap (Suc j) j (P @ x # R) = P0 @ x # (y # R)"
      using swap_adjacent[OF len, where y=y and x=x and R=R] by (simp add: P)
    obtain P1 where 1: "insertion_inner lt 0 j (P0 @ x # (y # R)) = P1 @ (y # R)"
      and 2: "length P1 = Suc j" and 3: "mset P1 = mset (P0 @ [x])"
      and 4: "sorted (map f P0) \<longrightarrow> sorted (map f P1)"
      and 5: "\<forall>k. filter (\<lambda>y. f y = k) P1 = filter (\<lambda>y. f y = k) (P0 @ [x])"
      using Suc.IH[OF len, where R="y # R"] by blast
    have step: "insertion_inner lt 0 (Suc j) (P @ x # R) = (P1 @ [y]) @ R"
      using True nth sw 1 by (subst insertion_inner.simps) simp
    have set1: "set P1 = set P0 \<union> {x}"
      using 3 by (metis mset_eq_setD set_append list.set(1) list.set(2) Un_insert_right sup_bot.right_neutral)
    have srt: "sorted (map f (P1 @ [y]))" if s: "sorted (map f P)"
    proof -
      have "sorted (map f P0)" "\<forall>z\<in>set P0. f z \<le> f y"
        using s by (auto simp: P sorted_append)
      moreover have "f x \<le> f y" using True lt by simp
      ultimately show ?thesis using 4 set1 by (auto simp: sorted_append)
    qed
    have ne: "f x \<noteq> f y" using True lt by simp
    have flt: "filter (\<lambda>z. f z = k) (P1 @ [y]) = filter (\<lambda>z. f z = k) (P @ [x])" for k
      using 5 ne by (auto simp: P)
    show ?thesis
      using step 2 3 srt flt by (intro exI[of _ "P1 @ [y]"]) (simp add: P)
  next
    case False
    have step: "insertion_inner lt 0 (Suc j) (P @ x # R) = (P @ [x]) @ R"
      using False nth by (subst insertion_inner.simps) simp
    have srt: "sorted (map f (P @ [x]))" if s: "sorted (map f P)"
    proof -
      have "\<forall>z\<in>set P. f z \<le> f y" using s by (auto simp: P sorted_append)
      moreover have "f y \<le> f x" using False lt by simp
      ultimately show ?thesis using s by (auto simp: sorted_append intro: order_trans)
    qed
    show ?thesis
      using step srt Suc.prems by (intro exI[of _ "P @ [x]"]) simp
  qed
qed

lemma insertion_outer_sorts:
  assumes lt: "\<And>x y. lt x y = (f x < (f y :: 'k :: linorder))"
  shows "length P = i \<Longrightarrow>
           mset (insertion_outer lt 0 (length (P @ R)) i (P @ R)) = mset (P @ R) \<and>
           (sorted (map f P) \<longrightarrow>
              sorted (map f (insertion_outer lt 0 (length (P @ R)) i (P @ R)))) \<and>
           (\<forall>k. filter (\<lambda>y. f y = k) (insertion_outer lt 0 (length (P @ R)) i (P @ R)) =
                filter (\<lambda>y. f y = k) (P @ R))"
proof (induction R arbitrary: P i)
  case Nil
  then show ?case by (subst (1 2 3) insertion_outer.simps) simp
next
  case (Cons x R)
  obtain P1 where 1: "insertion_inner lt 0 i (P @ x # R) = P1 @ R"
    and 2: "length P1 = Suc i" and 3: "mset P1 = mset (P @ [x])"
    and 4: "sorted (map f P) \<longrightarrow> sorted (map f P1)"
    and 5: "\<forall>k. filter (\<lambda>y. f y = k) P1 = filter (\<lambda>y. f y = k) (P @ [x])"
    using insertion_inner_insert[where lt=lt and f=f and x=x and R=R, OF lt Cons.prems] by blast
  have len: "length (P1 @ R) = length (P @ x # R)" using 2 Cons.prems by simp
  have step: "insertion_outer lt 0 (length (P @ x # R)) i (P @ x # R) =
                insertion_outer lt 0 (length (P1 @ R)) (Suc i) (P1 @ R)"
    using Cons.prems 1 len by (subst insertion_outer.simps) simp
  show ?case
    using Cons.IH[OF 2] 3 4 5 unfolding step by simp
qed

lemma gap_pass_perm:
  "b = length xs \<Longrightarrow> mset (gap_pass lt b i xs) = mset xs \<and> length (gap_pass lt b i xs) = length xs"
proof (induction lt b i xs rule: gap_pass.induct)
  case (1 lt b i xs)
  show ?case
  proof (cases "i < b")
    case True
    let ?ys = "if lt (xs ! i) (xs ! (i - 6)) then swap i (i - 6) xs else xs"
    have p: "mset ?ys = mset xs" "length ?ys = length xs"
      using True 1(2) by (simp_all add: swap_def mset_swap)
    then show ?thesis
      using True 1(1)[OF True] 1(2) by (subst (1 2) gap_pass.simps) simp
  next
    case False
    then show ?thesis by (subst (1 2) gap_pass.simps) simp
  qed
qed

lemma gap_pass_short: "length xs \<le> 6 \<Longrightarrow> gap_pass lt (length xs) 6 xs = xs"
  by (subst gap_pass.simps) simp

lemma sort_Slice_small_sorts:
  assumes lt: "\<And>x y. lt x y = (f x < (f y :: 'k :: linorder))"
  shows "mset (sort_Slice_small lt xs) = mset xs \<and> sorted (map f (sort_Slice_small lt xs))"
proof (cases "length xs > 1")
  case True
  define ys where "ys = gap_pass lt (length xs) 6 xs"
  have ys: "mset ys = mset xs" "length ys = length xs"
    using gap_pass_perm[where b="length xs" and xs=xs and lt=lt and i=6] by (simp_all add: ys_def)
  then obtain y R where yR: "ys = [y] @ R" using True by (cases ys) auto
  have "mset (insertion_outer lt 0 (length ys) 1 ys) = mset ys \<and>
        sorted (map f (insertion_outer lt 0 (length ys) 1 ys))"
    using insertion_outer_sorts[where lt=lt and f=f and P="[y]" and i=1 and R=R, OF lt] unfolding yR by simp
  then show ?thesis
    using True ys by (simp add: sort_Slice_small_def quickSort_small_def insertionSort_func_def ys_def)
next
  case False
  then have "xs = [] \<or> (\<exists>x. xs = [x])" by (cases xs) auto
  then show ?thesis
    using False by (auto simp: sort_Slice_small_def quickSort_small_def)
qed

lemma sort_Slice_small_stable:
  assumes lt: "\<And>x y. lt x y = (f x < (f y :: 'k :: linorder))"
    and short: "length xs \<le> 6"
  shows "sort_Slice_small lt xs = sort_key f xs"
proof -
  have flt: "filter (\<lambda>y. f y = k) (sort_Slice_small lt xs) = filter (\<lambda>y. f y = k) xs" for k
  proof (cases "length xs > 1")
    case True
    then obtain y R where yR: "xs = [y] @ R" by (cases xs) auto
    have "filter (\<lambda>y. f y = k) (insertion_outer lt 0 (length xs) 1 xs) = filter (\<lambda>y. f y = k) xs"
      using insertion_outer_sorts[where lt=lt and f=f and P="[y]" and i=1 and R=R, OF lt] unfolding yR by simp
    then show ?thesis
      using True short
      by (simp add: sort_Slice_small_def quickSort_small_def insertionSort_func_def gap_pass_short)
  next
    case False
    then show ?thesis by (simp add: sort_Slice_small_def quickSort_small_def)
  qed
  have "sort_key f xs = sort_Slice_small lt xs"
  proof (rule properties_for_sort_key)
    show "mset (sort_Slice_small lt xs) = mset xs"
      using sort_Slice_small_sorts[where lt=lt and f=f and xs=xs, OF lt] by simp
    show "sorted (map f (sort_Slice_small lt xs))"
      using sort_Slice_small_sorts[where lt=lt and f=f and xs=xs, OF lt] by simp
    show "filter (\<lambda>x. f k = f x) (sort_Slice_small lt xs) = filter (\<lambda>x. f k = f x) xs" for k
      using flt[of "f k"] by (simp add: eq_commute)
  qed
  then show ?thesis by simp
qed

section \<open>Properties of the flusher pass\<close>

lemma less_Timestamp_instant: "less_Timestamp x y = (instant x < instant y)"
  by (simp add: less_Timestamp_def Before_def instant_def)

lemma print_all_lines: "print_all msgs out = Inr (out @ concat (map lines_of msgs))"
proof (induction msgs arbitrary: out)
  case Nil
  then show ?case by simp
next
  case (Cons msg msgs)
  obtain ls where "print_msg msg = Inr ls" using print_msg_total by blast
  then show ?case using Cons[of "out @ ls"] by (simp add: lines_of_def)
qed

lemma sort_Slice_ok_sorted:
  "sort_Slice_ok L xs \<longleftrightarrow>
     mset (sort_Slice L less_Timestamp xs) = mset xs \<and>
     sorted (map instant (sort_Slice L less_Timestamp xs))"
  by (simp add: sort_Slice_ok_def less_Timestamp_instant sorted_map not_less)

lemma go116_sort_Slice_ok: "sort_Slice_ok go116 xs"
  using sort_Slice_small_sorts[where lt=less_Timestamp and f=instant and xs=xs]
  by (simp add: sort_Slice_ok_sorted go116_def less_Timestamp_instant)

lemma filter_distinct_key:
  "distinct (map f ys) \<Longrightarrow> k \<in> set ys \<Longrightarrow> filter (\<lambda>x. f k = f x) ys = [k]"
proof (induction ys)
  case Nil
  then show ?case by simp
next
  case (Cons y ys)
  have notin: "f y \<notin> f ` set ys" and d: "distinct (map f ys)"
    using Cons.prems(1) by simp_all
  show ?case
  proof (cases "k = y")
    case True
    have "filter (\<lambda>x. f y = f x) ys = []"
      using notin by (auto simp: filter_empty_conv)
    then show ?thesis using True by simp
  next
    case False
    then have k: "k \<in> set ys" using Cons.prems(2) by simp
    then have "f k \<noteq> f y" using notin by (metis imageI)
    then show ?thesis using Cons.IH[OF d k] by simp
  qed
qed

lemma sorted_distinct_keys_unique:
  assumes "mset ys = mset xs" and "sorted (map f ys)" and "distinct (map f xs)"
  shows "ys = sort_key f xs" and "sorted_wrt (\<lambda>x y. f x < f y) ys"
proof -
  have "mset (map f ys) = mset (map f xs)" using assms(1) by simp
  then have d: "distinct (map f ys)"
    using assms(3) mset_eq_imp_distinct_iff[of "map f ys" "map f xs"] by blast
  have "sort_key f xs = ys"
  proof (rule properties_for_sort_key)
    show "mset ys = mset xs" by (rule assms(1))
    show "sorted (map f ys)" by (rule assms(2))
    show "filter (\<lambda>x. f k = f x) ys = filter (\<lambda>x. f k = f x) xs" if "k \<in> set ys" for k
    proof -
      have "k \<in> set xs" using that assms(1) by (metis mset_eq_setD)
      then show ?thesis
        using filter_distinct_key[OF d that] filter_distinct_key[OF assms(3)] by simp
    qed
  qed
  then show "ys = sort_key f xs" by simp
  have "sorted_wrt (<) (map f ys)" using assms(2) d by (simp add: strict_sorted_iff)
  then show "sorted_wrt (\<lambda>x y. f x < f y) ys" by (simp add: sorted_wrt_map)
qed

text \<open>
  Claim C8. The pass over a batch that is not empty and whose timestamps are pairwise
  distinct writes the lines of the records in strictly ascending order of timestamp,
  whatever \<open>sort.Slice\<close> does beyond keeping its promise: the order of the records is
  then determined. The batch of the specification, \<open>[b]\<close> at 2 and \<open>[a]\<close> at 1, writes
  the line of \<open>[a]\<close> first.
\<close>

theorem flush_in_timestamp_order:
  assumes "elems gm \<noteq> []"
    and "distinct (map instant (elems gm))"
    and "sort_Slice_ok L (elems gm)"
  shows "\<exists>ys. flushMessages_pass L gm out =
                Inr (make_slice (length (elems gm)), out @ concat (map lines_of ys)) \<and>
              mset ys = mset (elems gm) \<and>
              sorted_wrt (\<lambda>x y. instant x < instant y) ys \<and>
              ys = sort_key instant (elems gm)"
proof -
  define ys where "ys = sort_Slice L less_Timestamp (elems gm)"
  have m: "mset ys = mset (elems gm)" and s: "sorted (map instant ys)"
    using assms(3) by (simp_all add: sort_Slice_ok_sorted ys_def)
  have "length ys = length (elems gm)" using m by (metis size_mset)
  then have "flushMessages_pass L gm out =
               Inr (make_slice (length (elems gm)), out @ concat (map lines_of ys))"
    using assms(1) by (simp add: flushMessages_pass_def Let_def print_all_lines ys_def)
  then show ?thesis
    using m sorted_distinct_keys_unique[OF m s assms(2)] by blast
qed

theorem flush_in_timestamp_order_witness:
  "flushMessages_pass go116
     \<lparr>elems = [\<lparr>TextPayload = ''[b]'', Timestamp = \<lparr>unixNano = 2, zoneOffset = 0\<rparr>\<rparr>,
               \<lparr>TextPayload = ''[a]'', Timestamp = \<lparr>unixNano = 1, zoneOffset = 0\<rparr>\<rparr>],
      cap = 2\<rparr> [] =
     Inr (\<lparr>elems = [], cap = 2\<rparr>,
          [''[1970-01-01 00:00:00.000000001 UTC]: [a]'' @ newline,
           ''[1970-01-01 00:00:00.000000002 UTC]: [b]'' @ newline])"
proof -
  let ?b = "\<lparr>TextPayload = ''[b]'', Timestamp = \<lparr>unixNano = 2, zoneOffset = 0\<rparr>\<rparr>"
  let ?a = "\<lparr>TextPayload = ''[a]'', Timestamp = \<lparr>unixNano = 1, zoneOffset = 0\<rparr>\<rparr>"
  let ?gm = "\<lparr>elems = [?b, ?a], cap = 2\<rparr>"
  have 1: "elems ?gm \<noteq> []" by simp
  have 2: "distinct (map instant (elems ?gm))" by (simp add: instant_def)
  have 3: "sort_Slice_ok go116 (elems ?gm)" by (rule go116_sort_Slice_ok)
  have l: "lines_of ?a = [''[1970-01-01 00:00:00.000000001 UTC]: [a]'' @ newline]"
    "lines_of ?b = [''[1970-01-01 00:00:00.000000002 UTC]: [b]'' @ newline]"
    by code_simp+
  show ?thesis
    using flush_in_timestamp_order[OF 1 2 3, of "[]"] by (simp add: l make_slice_def instant_def)
qed

text \<open>
  Claim C2, as stated: records with equal timestamps come out in the order in which
  they were appended. With \<open>sort.Slice\<close> of Go 1.16.4 a batch of seven records is
  enough to break it: the pass of gap six swaps the first record with the last, behind
  the second record, which has the timestamp of the first. The line \<open>second line\<close>
  then stands before the line of the entry that it continues.
\<close>

theorem stable_sort_counterexample:
  "flushMessages_pass go116
     \<lparr>elems = [\<lparr>TextPayload = ''[b] first line'', Timestamp = \<lparr>unixNano = 2, zoneOffset = 0\<rparr>\<rparr>,
               \<lparr>TextPayload = ''second line'', Timestamp = \<lparr>unixNano = 2, zoneOffset = 0\<rparr>\<rparr>,
               \<lparr>TextPayload = ''[c]'', Timestamp = \<lparr>unixNano = 3, zoneOffset = 0\<rparr>\<rparr>,
               \<lparr>TextPayload = ''[d]'', Timestamp = \<lparr>unixNano = 3, zoneOffset = 0\<rparr>\<rparr>,
               \<lparr>TextPayload = ''[e]'', Timestamp = \<lparr>unixNano = 3, zoneOffset = 0\<rparr>\<rparr>,
               \<lparr>TextPayload = ''[f]'', Timestamp = \<lparr>unixNano = 3, zoneOffset = 0\<rparr>\<rparr>,
               \<lparr>TextPayload = ''[a]'', Timestamp = \<lparr>unixNano = 1, zoneOffset = 0\<rparr>\<rparr>],
      cap = 7\<rparr> [] =
     Inr (\<lparr>elems = [], cap = 7\<rparr>,
          [''[1970-01-01 00:00:00.000000001 UTC]: [a]'' @ newline,
           ''second line'' @ newline,
           ''[1970-01-01 00:00:00.000000002 UTC]: [b] first line'' @ newline,
           ''[1970-01-01 00:00:00.000000003 UTC]: [c]'' @ newline,
           ''[1970-01-01 00:00:00.000000003 UTC]: [d]'' @ newline,
           ''[1970-01-01 00:00:00.000000003 UTC]: [e]'' @ newline,
           ''[1970-01-01 00:00:00.000000003 UTC]: [f]'' @ newline])"
  by code_simp

text \<open>
  Claim C2, amended. With \<open>sort.Slice\<close> of Go 1.16.4 a batch of at most six records
  comes out as the stable sort of it by timestamp: records with equal timestamps keep
  the order in which they were appended. (From seven records on the order of such
  records can change.)
\<close>

theorem small_batches_keep_arrival_order:
  "(length (elems gm) \<le> 6 \<longrightarrow>
      sort_Slice go116 less_Timestamp (elems gm) = sort_key instant (elems gm) \<and>
      (\<forall>t. filter (\<lambda>m. instant m = t) (sort_Slice go116 less_Timestamp (elems gm)) =
           filter (\<lambda>m. instant m = t) (elems gm)) \<and>
      (elems gm \<noteq> [] \<longrightarrow>
         flushMessages_pass go116 gm out =
           Inr (make_slice (length (elems gm)),
                out @ concat (map lines_of (sort_key instant (elems gm))))))"
proof (intro conjI impI)
  assume "length (elems gm) \<le> 6"
  then show e: "sort_Slice go116 less_Timestamp (elems gm) = sort_key instant (elems gm)"
    using sort_Slice_small_stable[where lt=less_Timestamp and f=instant and xs="elems gm"]
    by (simp add: go116_def less_Timestamp_instant)
  show "\<forall>t. filter (\<lambda>m. instant m = t) (sort_Slice go116 less_Timestamp (elems gm)) =
           filter (\<lambda>m. instant m = t) (elems gm)"
    unfolding e by (simp add: sort_key_stable)
  assume "elems gm \<noteq> []"
  then show "flushMessages_pass go116 gm out =
           Inr (make_slice (length (elems gm)),
                out @ concat (map lines_of (sort_key instant (elems gm))))"
    by (simp add: flushMessages_pass_def Let_def print_all_lines e)
qed

theorem small_batches_keep_arrival_order_witness:
  "flushMessages_pass go116
     \<lparr>elems = [\<lparr>TextPayload = ''[b] first line'', Timestamp = \<lparr>unixNano = 2, zoneOffset = 0\<rparr>\<rparr>,
               \<lparr>TextPayload = ''second line'', Timestamp = \<lparr>unixNano = 2, zoneOffset = 0\<rparr>\<rparr>],
      cap = 2\<rparr> [] =
     Inr (\<lparr>elems = [], cap = 2\<rparr>,
          [''[1970-01-01 00:00:00.000000002 UTC]: [b] first line'' @ newline,
           ''second line'' @ newline])"
proof -
  let ?b = "\<lparr>TextPayload = ''[b] first line'', Timestamp = \<lparr>unixNano = 2, zoneOffset = 0\<rparr>\<rparr>"
  let ?c = "\<lparr>TextPayload = ''second line'', Timestamp = \<lparr>unixNano = 2, zoneOffset = 0\<rparr>\<rparr>"
  have l: "lines_of ?b = [''[1970-01-01 00:00:00.000000002 UTC]: [b] first line'' @ newline]"
    "lines_of ?c = [''second line'' @ newline]"
    by code_simp+
  show ?thesis
    using small_batches_keep_arrival_order[of "\<lparr>elems = [?b, ?c], cap = 2\<rparr>" "[]"]
    by (simp add: l make_slice_def instant_def)
qed

section \<open>Properties of the interleaving\<close>

subsection \<open>Event lists\<close>

lemma pending_from_append:
  "pending_from acc (es @ es') = pending_from (pending_from acc es) es'"
  by (induction acc es rule: pending_from.induct) simp_all

lemma arrivals_from_append:
  "arrivals_from acc (es @ es') = arrivals_from acc es @ arrivals_from (pending_from acc es) es'"
  by (induction acc es rule: arrivals_from.induct) simp_all

lemma flushed_append: "flushed (es @ es') = flushed es @ flushed es'"
  by (induction es rule: flushed.induct) simp_all

lemma appended_append: "appended (es @ es') = appended es @ appended es'"
  by (induction es rule: appended.induct) simp_all

lemma pending_snoc:
  "pending (es @ [Appended t m pm]) = pending es @ [pm]"
  "pending (es @ [Flushed b]) = []"
  "pending (es @ [Dropped t m]) = pending es"
  "pending (es @ [Acked t m]) = pending es"
  "pending [] = []"
  by (simp_all add: pending_def pending_from_append)

lemma arrivals_snoc:
  "arrivals (es @ [Appended t m pm]) = arrivals es"
  "arrivals (es @ [Flushed b]) = arrivals es @ [pending es]"
  "arrivals (es @ [Dropped t m]) = arrivals es"
  "arrivals (es @ [Acked t m]) = arrivals es"
  "arrivals [] = []"
  by (simp_all add: arrivals_def pending_def arrivals_from_append)

lemma appended_from_arrivals:
  "acc @ appended es = concat (arrivals_from acc es) @ pending_from acc es"
  by (induction acc es rule: arrivals_from.induct) simp_all

lemma appended_partition: "appended es = concat (arrivals es) @ pending es"
  using appended_from_arrivals[of "[]" es] by (simp add: arrivals_def pending_def)

subsection \<open>Steps keep the invariant\<close>

lemmas step_defs = callback_entry_def callback_step_def tick_step_def flushMessages_step_def

lemma step_events: "step L a s = Some (es, s') \<Longrightarrow> es = [] \<or> (\<exists>e. es = [e])"
  by (cases a) (auto simp: step_defs split: wstate.splits fstate.splits sum.splits if_splits)

lemma mutex_step:
  assumes "mutex_inv s" and "step L a s = Some (es, s')"
  shows "mutex_inv s'"
proof (cases a)
  case (Deliver t m data)
  then show ?thesis
    using assms
    by (auto simp: mutex_inv_def callback_entry_def split: wstate.splits sum.splits if_splits)
next
  case (Work t)
  have h: "holds (workers s t) \<Longrightarrow> mx s = Some (Worker t)"
    using assms(1) by (simp add: mutex_inv_def)
  show ?thesis
  proof (cases "workers s t")
    case (Locked m pm)
    then show ?thesis
      using assms Work h by (auto simp: mutex_inv_def callback_step_def split: if_splits)
  next
    case (Stored m)
    then have "mx s = Some (Worker t)" using h by simp
    then show ?thesis
      using assms Work Stored by (auto simp: mutex_inv_def callback_step_def split: if_splits)
  qed (use assms Work in \<open>auto simp: mutex_inv_def callback_step_def split: if_splits\<close>)
next
  case Tick
  then show ?thesis
    using assms by (auto simp: mutex_inv_def tick_step_def split: fstate.splits if_splits)
next
  case Flush
  then show ?thesis
    using assms
    by (auto simp: mutex_inv_def flushMessages_step_def split: fstate.splits if_splits sum.splits)
qed

lemma buffer_step:
  assumes "mutex_inv s" and "buffer_inv L evs s" and "step L a s = Some (es, s')"
  shows "buffer_inv L (evs @ es) s'"
proof (cases a)
  case (Deliver t m data)
  then show ?thesis
    using assms
    by (auto simp: buffer_inv_def callback_entry_def pending_snoc flushed_append
        split: wstate.splits sum.splits fstate.splits if_splits)
next
  case (Work t)
  show ?thesis
  proof (cases "workers s t")
    case (Locked m pm)
    then have "mx s = Some (Worker t)" using assms(1) by (simp add: mutex_inv_def)
    then have "\<not> flusher_holds (flusher s)" using assms(1) by (auto simp: mutex_inv_def)
    then show ?thesis
      using assms Work Locked
      by (cases "flusher s")
        (auto simp: buffer_inv_def callback_step_def pending_snoc append_slice_def)
  qed (use assms Work in \<open>auto simp: buffer_inv_def callback_step_def pending_snoc flushed_append
        split: fstate.splits if_splits\<close>)
next
  case Tick
  then show ?thesis
    using assms by (auto simp: buffer_inv_def tick_step_def split: fstate.splits if_splits)
next
  case Flush
  obtain out where "print_all (elems (globalMessages s)) (stdout s) = Inr out"
    using print_all_total by blast
  then show ?thesis
    using assms Flush
    by (cases "flusher s")
      (auto simp: buffer_inv_def flushMessages_step_def pending_snoc flushed_append make_slice_def
        split: if_splits)
qed

lemma batches_step:
  assumes "buffer_inv L evs s" and "batches_inv L evs" and "step L a s = Some (es, s')"
  shows "batches_inv L (evs @ es)"
proof (cases a)
  case (Deliver t m data)
  then show ?thesis
    using assms
    by (auto simp: batches_inv_def callback_entry_def arrivals_snoc flushed_append
        split: wstate.splits sum.splits if_splits)
next
  case (Work t)
  then show ?thesis
    using assms
    by (auto simp: batches_inv_def callback_step_def arrivals_snoc flushed_append
        split: wstate.splits if_splits)
next
  case Tick
  then show ?thesis
    using assms by (auto simp: batches_inv_def tick_step_def split: fstate.splits if_splits)
next
  case Flush
  then show ?thesis
    using assms
    by (cases "flusher s")
      (auto simp: batches_inv_def buffer_inv_def flushMessages_step_def arrivals_snoc flushed_append
        split: if_splits sum.splits)
qed

lemma stdout_step:
  assumes "stdout_inv evs s" and "step L a s = Some (es, s')"
  shows "stdout_inv (evs @ es) s'"
proof (cases a)
  case (Deliver t m data)
  then show ?thesis
    using assms
    by (auto simp: stdout_inv_def callback_entry_def flushed_append
        split: wstate.splits sum.splits if_splits)
next
  case (Work t)
  then show ?thesis
    using assms
    by (auto simp: stdout_inv_def callback_step_def flushed_append split: wstate.splits if_splits)
next
  case Tick
  then show ?thesis
    using assms by (auto simp: stdout_inv_def tick_step_def split: fstate.splits if_splits)
next
  case Flush
  then show ?thesis
    using assms
    by (cases "flusher s")
      (auto simp: stdout_inv_def flushMessages_step_def flushed_append print_all_lines
        split: if_splits)
qed

lemma counts_snoc:
  "parses t m (es @ es') = parses t m es + parses t m es'"
  "acks t m (es @ es') = acks t m es + acks t m es'"
  by (simp_all add: parses_def acks_def)

lemma ack_now_step:
  assumes "\<forall>t m. parses t m evs = acks t m evs + parsed_unacked m (workers s t)"
    and "step L a s = Some (es, s')"
  shows "\<forall>t m. parses t m (evs @ es) = acks t m (evs @ es) + parsed_unacked m (workers s' t)"
proof (cases a)
  case (Deliver t m data)
  then show ?thesis
    using assms
    by (auto simp: callback_entry_def counts_snoc parses_def acks_def parsed_unacked_def
        split: wstate.splits sum.splits if_splits)
next
  case (Work t)
  then show ?thesis
    using assms
    by (auto simp: callback_step_def counts_snoc parses_def acks_def parsed_unacked_def
        split: wstate.splits if_splits)
next
  case Tick
  then show ?thesis
    using assms by (auto simp: tick_step_def split: fstate.splits if_splits)
next
  case Flush
  then show ?thesis
    using assms
    by (auto simp: flushMessages_step_def counts_snoc parses_def acks_def
        split: fstate.splits if_splits sum.splits)
qed

lemma ack_step:
  assumes "ack_inv evs s" and st: "step L a s = Some (es, s')"
  shows "ack_inv (evs @ es) s'"
proof -
  have now: "\<forall>t m. parses t m (evs @ es) = acks t m (evs @ es) + parsed_unacked m (workers s' t)"
    using assms ack_now_step unfolding ack_inv_def by blast
  have "acks t m (take n (evs @ es)) \<le> parses t m (take n (evs @ es))" for n t m
  proof (cases "n \<le> length evs")
    case True
    then show ?thesis using assms(1) by (simp add: ack_inv_def)
  next
    case False
    have "es = [] \<or> (\<exists>e. es = [e])" using st by (rule step_events)
    then have "take n (evs @ es) = evs @ es" using False by auto
    then show ?thesis using now by simp
  qed
  then show ?thesis using now by (simp add: ack_inv_def)
qed

lemma inv_step:
  assumes "pipeline_inv L evs s" and "step L a s = Some (es, s')"
  shows "pipeline_inv L (evs @ es) s'"
proof -
  have m: "mutex_inv s" and b: "buffer_inv L evs s" and f: "batches_inv L evs"
    and k: "ack_inv evs s" and o: "stdout_inv evs s"
    using assms(1) by (simp_all add: pipeline_inv_def)
  show ?thesis
    unfolding pipeline_inv_def
    using mutex_step[OF m assms(2)] buffer_step[OF m b assms(2)] batches_step[OF b f assms(2)]
      ack_step[OF k assms(2)] stdout_step[OF o assms(2)]
    by simp
qed

lemma inv_init: "pipeline_inv L [] init"
  by (simp add: pipeline_inv_def mutex_inv_def buffer_inv_def batches_inv_def ack_inv_def stdout_inv_def
      init_def nilSlice_def pending_snoc arrivals_snoc parses_def acks_def parsed_unacked_def)

lemma inv_exec:
  "pipeline_inv L evs0 s0 \<Longrightarrow> exec L acts s0 = Some (es, s) \<Longrightarrow> pipeline_inv L (evs0 @ es) s"
proof (induction acts arbitrary: evs0 s0 es)
  case Nil
  then show ?case by simp
next
  case (Cons a acts)
  obtain e1 s1 where 1: "step L a s0 = Some (e1, s1)"
    using Cons.prems(2) by (auto split: option.splits)
  then obtain e2 where 2: "exec L acts s1 = Some (e2, s)" and es: "es = e1 @ e2"
    using Cons.prems(2) by (auto split: option.splits)
  have "pipeline_inv L (evs0 @ e1) s1" using Cons.prems(1) 1 by (rule inv_step)
  then show ?case using Cons.IH 2 es by fastforce
qed

lemma inv_run: "exec L acts init = Some (evs, s) \<Longrightarrow> pipeline_inv L evs s"
  using inv_exec[OF inv_init] by fastforce

lemma capacity_step:
  assumes "buffer_inv L evs s" and "capacity_inv evs s" and "step L a s = Some (es, s')"
  shows "capacity_inv (evs @ es) s'"
proof (cases a)
  case (Deliver t m data)
  then show ?thesis
    using assms
    by (auto simp: capacity_inv_def last_batch_length_def callback_entry_def pending_snoc
        flushed_append split: wstate.splits sum.splits if_splits)
next
  case (Work t)
  then show ?thesis
    using assms
    by (auto simp: capacity_inv_def last_batch_length_def callback_step_def pending_snoc
        flushed_append split: wstate.splits if_splits)
next
  case Tick
  then show ?thesis
    using assms
    by (auto simp: capacity_inv_def last_batch_length_def tick_step_def
        split: fstate.splits if_splits)
next
  case Flush
  then show ?thesis
    using assms
    by (cases "flusher s")
      (auto simp: capacity_inv_def last_batch_length_def buffer_inv_def flushMessages_step_def
        make_slice_def pending_snoc flushed_append split: sum.splits if_splits)
qed

lemma capacity_init: "capacity_inv [] init"
  by (simp add: capacity_inv_def last_batch_length_def init_def nilSlice_def)

lemma capacity_exec:
  "pipeline_inv L evs0 s0 \<Longrightarrow> capacity_inv evs0 s0 \<Longrightarrow> exec L acts s0 = Some (es, s) \<Longrightarrow>
     capacity_inv (evs0 @ es) s"
proof (induction acts arbitrary: evs0 s0 es)
  case Nil
  then show ?case by simp
next
  case (Cons a acts)
  obtain e1 s1 where 1: "step L a s0 = Some (e1, s1)"
    using Cons.prems(3) by (auto split: option.splits)
  then obtain e2 where 2: "exec L acts s1 = Some (e2, s)" and es: "es = e1 @ e2"
    using Cons.prems(3) by (auto split: option.splits)
  have b: "buffer_inv L evs0 s0" using Cons.prems(1) by (simp add: pipeline_inv_def)
  have i: "pipeline_inv L (evs0 @ e1) s1" using Cons.prems(1) 1 by (rule inv_step)
  have c: "capacity_inv (evs0 @ e1) s1" using b Cons.prems(2) 1 by (rule capacity_step)
  show ?case using Cons.IH[OF i c 2] es by simp
qed

lemma capacity_run: "exec L acts init = Some (evs, s) \<Longrightarrow> capacity_inv evs s"
  using capacity_exec[OF inv_init capacity_init] by fastforce

subsection \<open>A goroutine running alone\<close>

text \<open>
  Run without interruption, the callback does to the buffer what \<open>parseMessage\<close> does
  and acknowledges, and the flusher does what a pass does.
\<close>

lemma callback_alone:
  assumes "workers s t = Idle" and "mx s = None"
  shows "\<exists>acts evs s'. exec L (Deliver t m data # acts) s = Some (evs, s') \<and>
           globalMessages s' = parseMessage L data (globalMessages s) \<and>
           acked s' = acked s @ [m] \<and> workers s' t = Idle \<and> mx s' = None \<and>
           stdout s' = stdout s \<and> flusher s' = flusher s"
proof (cases "json_Unmarshal L data")
  case (Inl err)
  then have "\<exists>evs s'. exec L (Deliver t m data # [Work t]) s = Some (evs, s') \<and>
           globalMessages s' = parseMessage L data (globalMessages s) \<and>
           acked s' = acked s @ [m] \<and> workers s' t = Idle \<and> mx s' = None \<and>
           stdout s' = stdout s \<and> flusher s' = flusher s"
    using assms by (simp add: callback_entry_def callback_step_def parseMessage_def)
  then show ?thesis by blast
next
  case (Inr pm)
  then have "\<exists>evs s'. exec L (Deliver t m data # [Work t, Work t, Work t, Work t]) s =
             Some (evs, s') \<and>
           globalMessages s' = parseMessage L data (globalMessages s) \<and>
           acked s' = acked s @ [m] \<and> workers s' t = Idle \<and> mx s' = None \<and>
           stdout s' = stdout s \<and> flusher s' = flusher s"
    using assms by (simp add: callback_entry_def callback_step_def parseMessage_def)
  then show ?thesis by blast
qed

lemma flusher_alone:
  assumes "flusher s = Waiting" and "mx s = None"
  shows "\<exists>acts evs s'. exec L (Tick # acts) s = Some (evs, s') \<and>
           flushMessages_pass L (globalMessages s) (stdout s) =
             Inr (globalMessages s', stdout s') \<and>
           flusher s' = Waiting \<and> mx s' = None \<and> acked s' = acked s \<and>
           workers s' = workers s"
proof (cases "elems (globalMessages s) = []")
  case True
  then have "\<exists>evs s'. exec L (Tick # [Flush, Flush, Flush]) s = Some (evs, s') \<and>
           flushMessages_pass L (globalMessages s) (stdout s) =
             Inr (globalMessages s', stdout s') \<and>
           flusher s' = Waiting \<and> mx s' = None \<and> acked s' = acked s \<and>
           workers s' = workers s"
    using assms by (simp add: tick_step_def flushMessages_step_def flushMessages_pass_def)
  then show ?thesis by blast
next
  case False
  obtain out where
    "print_all (sort_Slice L less_Timestamp (elems (globalMessages s))) (stdout s) = Inr out"
    using print_all_total by blast
  then have "\<exists>evs s'. exec L (Tick # [Flush, Flush, Flush, Flush, Flush]) s = Some (evs, s') \<and>
           flushMessages_pass L (globalMessages s) (stdout s) =
             Inr (globalMessages s', stdout s') \<and>
           flusher s' = Waiting \<and> mx s' = None \<and> acked s' = acked s \<and>
           workers s' = workers s"
    using assms False
    by (simp add: tick_step_def flushMessages_step_def flushMessages_pass_def Let_def)
  then show ?thesis by blast
qed

subsection \<open>Records, batches and acknowledgements\<close>

lemma mset_concat_sorted:
  assumes "\<And>xs. mset (sort_Slice L less_Timestamp xs) = mset xs"
  shows "mset (concat (map (sort_Slice L less_Timestamp) bs)) = mset (concat bs)"
  by (induction bs) (simp_all add: assms)

lemma unflushed_pending:
  assumes "buffer_inv L evs s"
    and "\<And>xs. mset (sort_Slice L less_Timestamp xs) = mset xs"
  shows "mset (unflushed s) = mset (pending evs)"
  using assms by (cases "flusher s") (simp_all add: buffer_inv_def unflushed_def)

text \<open>
  Claim C1. In every interleaving of the workers and the flusher, every record appended
  to the buffer is in exactly one printed batch or still in the buffer, waiting for the
  next batch: the records appended are, counted with multiplicity, those of the printed
  batches and those not yet printed. Each printed batch is the sort of the records that
  arrived since the batch before it, standard output holds the lines of the printed
  batches, and a worker between lock and unlock excludes every other worker and the
  flusher. (\<open>sort.Slice\<close> only swaps elements.)
\<close>

theorem no_loss_no_duplication:
  assumes run: "exec L acts init = Some (evs, s)"
    and perm: "\<And>xs. mset (sort_Slice L less_Timestamp xs) = mset xs"
  shows "mset (appended evs) = mset (concat (flushed evs)) + mset (unflushed s) \<and>
         flushed evs = map (sort_Slice L less_Timestamp) (arrivals evs) \<and>
         appended evs = concat (arrivals evs) @ pending evs \<and>
         stdout s = concat (map (\<lambda>b. concat (map lines_of b)) (flushed evs)) \<and>
         (\<forall>t. holds (workers s t) \<longrightarrow> mx s = Some (Worker t) \<and> \<not> flusher_holds (flusher s))"
proof -
  have i: "pipeline_inv L evs s" using run by (rule inv_run)
  then have f: "flushed evs = map (sort_Slice L less_Timestamp) (arrivals evs)"
    and o: "stdout s = concat (map (\<lambda>b. concat (map lines_of b)) (flushed evs))"
    and b: "buffer_inv L evs s" and m: "mutex_inv s"
    by (simp_all add: pipeline_inv_def batches_inv_def stdout_inv_def)
  have "mset (appended evs) = mset (concat (arrivals evs)) + mset (pending evs)"
    by (subst appended_partition) simp
  then have c: "mset (appended evs) = mset (concat (flushed evs)) + mset (unflushed s)"
    using unflushed_pending[OF b perm] mset_concat_sorted[OF perm] f by simp
  have x: "\<forall>t. holds (workers s t) \<longrightarrow> mx s = Some (Worker t) \<and> \<not> flusher_holds (flusher s)"
    using m by (auto simp: mutex_inv_def)
  show ?thesis using c f o x appended_partition by blast
qed

lemma go116_perm: "mset (sort_Slice go116 less_Timestamp xs) = mset xs"
  using go116_sort_Slice_ok[of xs] by (simp add: sort_Slice_ok_def)

lemma go116_length: "length (sort_Slice go116 less_Timestamp xs) = length xs"
  using go116_perm[of xs] by (metis size_mset)

lemmas run_defs = step_defs init_def json_Unmarshal_def findField_def zeroMessage_def
  append_slice_def nilSlice_def go116_def sort_Slice_small_def quickSort_small_def
  print_msg_def index_byte_def

theorem no_loss_no_duplication_witness:
  "\<exists>s. exec go116
          [Deliver 0 7 (Valid (JObject [(''textPayload'', JString ''[a]'' ''[a]'')])),
           Work 0, Work 0, Tick, Work 0, Flush, Work 0, Flush, Flush] init =
        Some ([Appended 0 7 \<lparr>TextPayload = ''[a]'', Timestamp = zeroTime\<rparr>, Acked 0 7,
               Flushed [\<lparr>TextPayload = ''[a]'', Timestamp = zeroTime\<rparr>]], s) \<and>
        mset (appended [Appended 0 7 \<lparr>TextPayload = ''[a]'', Timestamp = zeroTime\<rparr>, Acked 0 7,
               Flushed [\<lparr>TextPayload = ''[a]'', Timestamp = zeroTime\<rparr>]]) =
          mset (concat (flushed [Appended 0 7 \<lparr>TextPayload = ''[a]'', Timestamp = zeroTime\<rparr>,
               Acked 0 7, Flushed [\<lparr>TextPayload = ''[a]'', Timestamp = zeroTime\<rparr>]])) +
          mset (unflushed s)"
proof -
  obtain s where run: "exec go116
          [Deliver 0 7 (Valid (JObject [(''textPayload'', JString ''[a]'' ''[a]'')])),
           Work 0, Work 0, Tick, Work 0, Flush, Work 0, Flush, Flush] init =
        Some ([Appended 0 7 \<lparr>TextPayload = ''[a]'', Timestamp = zeroTime\<rparr>, Acked 0 7,
               Flushed [\<lparr>TextPayload = ''[a]'', Timestamp = zeroTime\<rparr>]], s)"
    by (simp add: run_defs)
  show ?thesis
    using run no_loss_no_duplication[OF run go116_perm] by blast
qed

text \<open>
  Claim C5, as stated: immediately after every drain the buffer is empty with its
  capacity set to the length of the drained batch. A pass of the flusher that finds the
  buffer empty drains an empty batch and sets no capacity: after a batch of one record,
  the next pass leaves the buffer with capacity 1, not 0.
\<close>

theorem empty_drain_capacity_counterexample:
  "\<exists>s1 s2.
     exec go116
       [Deliver 0 7 (Valid (JObject [(''textPayload'', JString ''[a]'' ''[a]'')])),
        Work 0, Work 0, Work 0, Work 0, Tick, Flush, Flush, Flush, Flush, Flush] init =
       Some ([Appended 0 7 \<lparr>TextPayload = ''[a]'', Timestamp = zeroTime\<rparr>, Acked 0 7,
              Flushed [\<lparr>TextPayload = ''[a]'', Timestamp = zeroTime\<rparr>]], s1) \<and>
     globalMessages s1 = \<lparr>elems = [], cap = 1\<rparr> \<and>
     exec go116 [Tick, Flush, Flush, Flush] s1 = Some ([], s2) \<and>
     flusher s2 = Waiting \<and>
     globalMessages s2 = \<lparr>elems = [], cap = 1\<rparr> \<and>
     cap (globalMessages s2) \<noteq> length ([] :: ParsedMessage list) \<and>
     flushMessages_pass go116 \<lparr>elems = [], cap = 1\<rparr> [] = Inr (\<lparr>elems = [], cap = 1\<rparr>, [])"
  by (simp add: run_defs insertionSort_func_def insertion_outer.simps insertion_inner.simps
        gap_pass.simps swap_def less_Timestamp_def Before_def make_slice_def
        flushMessages_pass_def)

text \<open>
  A pass leaves the buffer empty, with the capacity it had when it found the buffer empty
  and the length of the batch otherwise. (\<open>sort.Slice\<close> keeps the length of the slice.)
\<close>

lemma flushMessages_pass_capacity:
  assumes "\<And>xs. length (sort_Slice L less_Timestamp xs) = length xs"
  shows "\<exists>out'. flushMessages_pass L gm out =
           Inr (\<lparr>elems = [], cap = (if elems gm = [] then cap gm else length (elems gm))\<rparr>, out')"
proof (cases "elems gm = []")
  case True
  then have "gm = \<lparr>elems = [], cap = cap gm\<rparr>" by (cases gm) simp
  then show ?thesis using True by (simp add: flushMessages_pass_def)
next
  case False
  obtain out' where "print_all (sort_Slice L less_Timestamp (elems gm)) out = Inr out'"
    using print_all_total by blast
  then show ?thesis using False assms by (simp add: flushMessages_pass_def make_slice_def Let_def)
qed

text \<open>
  Claim C5, amended. In every interleaving, each printed batch has as many records as were
  appended since the batch before it, and so has the part of the buffer not yet printed;
  at the length test the buffer holds exactly the records appended since the last printed
  batch. Once a batch is printed, the next statement of the flusher replaces the buffer
  by an empty one whose capacity is the length of that batch. A pass that finds the
  buffer empty prints no batch and leaves the buffer as it is. So after every pass, when
  the flusher is about to unlock, the buffer is empty and its capacity is the length of
  the last printed batch (0 before the first), which is not the length of the batch of
  this pass when that batch is empty; the capacity stays so until the next append.
  (\<open>sort.Slice\<close> keeps the length of the slice.)
\<close>

theorem drain_takes_all_and_empties:
  assumes run: "exec L acts init = Some (evs, s)"
    and len: "\<And>xs. length (sort_Slice L less_Timestamp xs) = length xs"
  shows "map length (flushed evs) = map length (arrivals evs) \<and>
         length (unflushed s) = length (pending evs) \<and>
         (flusher s = Holding \<longrightarrow> elems (globalMessages s) = pending evs) \<and>
         (flusher s = Printed \<longrightarrow>
            flushed evs \<noteq> [] \<and> elems (globalMessages s) = last (flushed evs) \<and>
            step L Flush s =
              Some ([], s\<lparr>globalMessages := \<lparr>elems = [], cap = length (last (flushed evs))\<rparr>,
                         flusher := Unlocking\<rparr>)) \<and>
         (flusher s = Holding \<and> elems (globalMessages s) = [] \<longrightarrow>
            step L Flush s = Some ([], s\<lparr>flusher := Unlocking\<rparr>)) \<and>
         (flusher s = Unlocking \<longrightarrow>
            globalMessages s = \<lparr>elems = [], cap = last_batch_length evs\<rparr>) \<and>
         (flusher s \<noteq> Printed \<and> pending evs = [] \<longrightarrow>
            cap (globalMessages s) = last_batch_length evs) \<and>
         (\<exists>out'. flushMessages_pass L gm out =
            Inr (\<lparr>elems = [], cap = (if elems gm = [] then cap gm else length (elems gm))\<rparr>,
                 out'))"
proof -
  have i: "pipeline_inv L evs s" using run by (rule inv_run)
  then have f: "flushed evs = map (sort_Slice L less_Timestamp) (arrivals evs)"
    and b: "buffer_inv L evs s"
    by (simp_all add: pipeline_inv_def batches_inv_def)
  have c: "capacity_inv evs s" using run by (rule capacity_run)
  have 1: "map length (flushed evs) = map length (arrivals evs)"
    unfolding f by (simp add: len comp_def)
  have 2: "length (unflushed s) = length (pending evs)"
    using b by (cases "flusher s") (simp_all add: buffer_inv_def unflushed_def len)
  have 3: "elems (globalMessages s) = pending evs" if "flusher s = Holding"
    using b that by (simp add: buffer_inv_def)
  have 4: "flushed evs \<noteq> [] \<and> elems (globalMessages s) = last (flushed evs) \<and>
            step L Flush s =
              Some ([], s\<lparr>globalMessages := \<lparr>elems = [], cap = length (last (flushed evs))\<rparr>,
                         flusher := Unlocking\<rparr>)"
    if "flusher s = Printed"
    using b that by (simp add: buffer_inv_def flushMessages_step_def make_slice_def)
  have 5: "step L Flush s = Some ([], s\<lparr>flusher := Unlocking\<rparr>)"
    if "flusher s = Holding \<and> elems (globalMessages s) = []"
    using that by (simp add: flushMessages_step_def)
  have 6: "globalMessages s = \<lparr>elems = [], cap = last_batch_length evs\<rparr>"
    if "flusher s = Unlocking"
  proof -
    have "pending evs = []" and e: "elems (globalMessages s) = []"
      using b that by (simp_all add: buffer_inv_def)
    then have "cap (globalMessages s) = last_batch_length evs"
      using c that by (simp add: capacity_inv_def)
    then show ?thesis using e by (cases "globalMessages s") simp
  qed
  have 7: "cap (globalMessages s) = last_batch_length evs"
    if "flusher s \<noteq> Printed \<and> pending evs = []"
    using c that by (simp add: capacity_inv_def)
  have 8: "\<exists>out'. flushMessages_pass L gm out =
            Inr (\<lparr>elems = [], cap = (if elems gm = [] then cap gm else length (elems gm))\<rparr>,
                 out')"
    using len by (rule flushMessages_pass_capacity)
  show ?thesis using 1 2 3 4 5 6 7 8 by blast
qed

theorem drain_takes_all_and_empties_witness:
  "\<exists>s. exec go116
          [Deliver 0 7 (Valid (JObject [(''textPayload'', JString ''[a]'' ''[a]'')])),
           Deliver 1 8 (Valid (JObject [(''textPayload'', JString ''[b]'' ''[b]'')])),
           Work 1, Work 1, Work 1, Work 0, Tick, Work 0, Work 0, Flush, Flush, Flush,
           Work 0, Work 1] init =
        Some ([Appended 1 8 \<lparr>TextPayload = ''[b]'', Timestamp = zeroTime\<rparr>,
               Appended 0 7 \<lparr>TextPayload = ''[a]'', Timestamp = zeroTime\<rparr>,
               Flushed [\<lparr>TextPayload = ''[b]'', Timestamp = zeroTime\<rparr>,
                        \<lparr>TextPayload = ''[a]'', Timestamp = zeroTime\<rparr>],
               Acked 0 7, Acked 1 8], s) \<and>
        (\<exists>s'. step go116 Flush s = Some ([], s') \<and>
              globalMessages s' = \<lparr>elems = [], cap = 2\<rparr>)"
proof -
  obtain s where run: "exec go116
          [Deliver 0 7 (Valid (JObject [(''textPayload'', JString ''[a]'' ''[a]'')])),
           Deliver 1 8 (Valid (JObject [(''textPayload'', JString ''[b]'' ''[b]'')])),
           Work 1, Work 1, Work 1, Work 0, Tick, Work 0, Work 0, Flush, Flush, Flush,
           Work 0, Work 1] init =
        Some ([Appended 1 8 \<lparr>TextPayload = ''[b]'', Timestamp = zeroTime\<rparr>,
               Appended 0 7 \<lparr>TextPayload = ''[a]'', Timestamp = zeroTime\<rparr>,
               Flushed [\<lparr>TextPayload = ''[b]'', Timestamp = zeroTime\<rparr>,
                        \<lparr>TextPayload = ''[a]'', Timestamp = zeroTime\<rparr>],
               Acked 0 7, Acked 1 8], s)"
    and p: "flusher s = Printed"
    by (simp add: run_defs insertionSort_func_def insertion_outer.simps insertion_inner.simps
        gap_pass.simps swap_def less_Timestamp_def Before_def)
  show ?thesis
    using run p drain_takes_all_and_empties[OF run go116_length] by simp
qed

text \<open>
  Claim C6. A payload that fails to decode leaves the buffer as it is; the callback
  drops it and acknowledges the message all the same, touching nothing but the list of
  acknowledgements. In every interleaving and at every moment, a worker has acknowledged
  a message at most as often as its \<open>parseMessage\<close> on that message has come to its end:
  no acknowledgement precedes the end of the parsing it belongs to.
\<close>

theorem undecodable_payload_dropped_and_acked:
  "(json_Unmarshal L data = Inl err \<longrightarrow> parseMessage L data gm = gm) \<and>
   (json_Unmarshal L data = Inl err \<and> workers s t = Idle \<longrightarrow>
      (\<exists>s'. exec L [Deliver t m data, Work t] s = Some ([Dropped t m, Acked t m], s') \<and>
            globalMessages s' = globalMessages s \<and> mx s' = mx s \<and> stdout s' = stdout s \<and>
            flusher s' = flusher s \<and> acked s' = acked s @ [m] \<and> workers s' t = Idle)) \<and>
   (exec L acts init = Some (evs, s1) \<longrightarrow>
      (\<forall>n. acks t m (take n evs) \<le> parses t m (take n evs)))"
proof (intro conjI impI)
  assume "json_Unmarshal L data = Inl err"
  then show "parseMessage L data gm = gm" by (simp add: parseMessage_def)
next
  assume "json_Unmarshal L data = Inl err \<and> workers s t = Idle"
  then show "\<exists>s'. exec L [Deliver t m data, Work t] s = Some ([Dropped t m, Acked t m], s') \<and>
            globalMessages s' = globalMessages s \<and> mx s' = mx s \<and> stdout s' = stdout s \<and>
            flusher s' = flusher s \<and> acked s' = acked s @ [m] \<and> workers s' t = Idle"
    by (simp add: callback_entry_def callback_step_def)
next
  assume "exec L acts init = Some (evs, s1)"
  then have "pipeline_inv L evs s1" by (rule inv_run)
  then show "\<forall>n. acks t m (take n evs) \<le> parses t m (take n evs)"
    by (simp add: pipeline_inv_def ack_inv_def)
qed

theorem undecodable_payload_dropped_and_acked_witness:
  "parseMessage go116 Invalid nilSlice = nilSlice \<and>
   (\<exists>s'. exec go116 [Deliver 0 7 Invalid, Work 0] init = Some ([Dropped 0 7, Acked 0 7], s') \<and>
         globalMessages s' = nilSlice \<and> acked s' = [7]) \<and>
   (\<exists>s. exec go116
          [Deliver 0 7 (Valid (JObject [(''textPayload'', JString ''[a]'' ''[a]'')])),
           Work 0, Work 0, Work 0, Work 0] init =
        Some ([Appended 0 7 \<lparr>TextPayload = ''[a]'', Timestamp = zeroTime\<rparr>, Acked 0 7], s)) \<and>
   acks 0 7 (take 1 [Appended 0 7 \<lparr>TextPayload = ''[a]'', Timestamp = zeroTime\<rparr>, Acked 0 7])
     \<le> parses 0 7 (take 1 [Appended 0 7 \<lparr>TextPayload = ''[a]'', Timestamp = zeroTime\<rparr>, Acked 0 7])"
proof -
  have u: "json_Unmarshal go116 Invalid = Inl SyntaxError" by (simp add: json_Unmarshal_def)
  have w: "workers init 0 = Idle" by (simp add: init_def)
  obtain s where run: "exec go116
          [Deliver 0 7 (Valid (JObject [(''textPayload'', JString ''[a]'' ''[a]'')])),
           Work 0, Work 0, Work 0, Work 0] init =
        Some ([Appended 0 7 \<lparr>TextPayload = ''[a]'', Timestamp = zeroTime\<rparr>, Acked 0 7], s)"
    by (simp add: run_defs)
  have a: "\<exists>s'. exec go116 [Deliver 0 7 Invalid, Work 0] init =
               Some ([Dropped 0 7, Acked 0 7], s') \<and>
             globalMessages s' = globalMessages init \<and> mx s' = mx init \<and>
             stdout s' = stdout init \<and> flusher s' = flusher init \<and>
             acked s' = acked init @ [7] \<and> workers s' 0 = Idle"
    using u w
      undecodable_payload_dropped_and_acked
        [of go116 Invalid SyntaxError nilSlice init 0 7 "[]" "[]" init]
    by blast
  have c: "\<forall>n. acks 0 7 (take n [Appended 0 7 \<lparr>TextPayload = ''[a]'', Timestamp = zeroTime\<rparr>,
                                   Acked 0 7])
             \<le> parses 0 7 (take n [Appended 0 7 \<lparr>TextPayload = ''[a]'', Timestamp = zeroTime\<rparr>,
                                    Acked 0 7])"
    using run
      undecodable_payload_dropped_and_acked
        [of go116 Invalid SyntaxError nilSlice init 0 7
          "[Deliver 0 7 (Valid (JObject [(''textPayload'', JString ''[a]'' ''[a]'')])),
            Work 0, Work 0, Work 0, Work 0]"
          "[Appended 0 7 \<lparr>TextPayload = ''[a]'', Timestamp = zeroTime\<rparr>, Acked 0 7]" s]
    by blast
  have p: "parseMessage go116 Invalid nilSlice = nilSlice"
    using u
      undecodable_payload_dropped_and_acked
        [of go116 Invalid SyntaxError nilSlice init 0 7 "[]" "[]" init]
    by blast
  have i: "globalMessages init = nilSlice" "acked init = []" by (simp_all add: init_def)
  show ?thesis
    using a c[rule_format, of 1] run p unfolding i by auto
qed

text \<open>
  Claim C10. The byte test \<open>TextPayload[0] == '['\<close> runs only under the guard that the
  text is not empty, so the indexing is in bounds whatever the batch holds: the loop over
  a batch never panics, neither does a whole pass of the flusher, for any \<open>sort.Slice\<close>,
  and in no interleaving does the flusher reach the panic.
\<close>

theorem first_byte_in_bounds:
  "(TextPayload msg \<noteq> [] \<longrightarrow> index_byte (TextPayload msg) 0 = Inr (hd (TextPayload msg))) \<and>
   (\<exists>ls. print_msg msg = Inr ls) \<and>
   (\<exists>out'. print_all msgs out = Inr out') \<and>
   (\<exists>r. flushMessages_pass L gm out = Inr r) \<and>
   (exec L acts init = Some (evs, s) \<longrightarrow> (\<forall>p. flusher s \<noteq> Panicked p))"
proof -
  obtain out' where "print_all (sort_Slice L less_Timestamp (elems gm)) out = Inr out'"
    using print_all_total by blast
  then have 1: "\<exists>r. flushMessages_pass L gm out = Inr r"
    by (simp add: flushMessages_pass_def Let_def)
  have 2: "\<forall>p. flusher s \<noteq> Panicked p" if "exec L acts init = Some (evs, s)"
  proof -
    have "buffer_inv L evs s" using inv_run[OF that] by (simp add: pipeline_inv_def)
    then show ?thesis by (auto simp: buffer_inv_def)
  qed
  show ?thesis
    using 1 2 print_msg_total print_all_total by (simp add: index_byte_def hd_conv_nth)
qed

theorem first_byte_in_bounds_witness:
  "index_byte ''[a]'' 0 = Inr CHR ''['' \<and>
   (\<exists>ls. print_msg \<lparr>TextPayload = ''[a]'', Timestamp = zeroTime\<rparr> = Inr ls) \<and>
   (\<exists>out'. print_all [\<lparr>TextPayload = [], Timestamp = zeroTime\<rparr>] [] = Inr out') \<and>
   (\<exists>s. exec go116
          [Deliver 0 7 (Valid (JObject [(''textPayload'', JString ''[a]'' ''[a]'')])),
           Work 0, Work 0, Work 0, Tick, Flush, Flush, Flush] init =
        Some ([Appended 0 7 \<lparr>TextPayload = ''[a]'', Timestamp = zeroTime\<rparr>,
               Flushed [\<lparr>TextPayload = ''[a]'', Timestamp = zeroTime\<rparr>]], s) \<and>
        (\<forall>p. flusher s \<noteq> Panicked p))"
proof -
  obtain s where run: "exec go116
          [Deliver 0 7 (Valid (JObject [(''textPayload'', JString ''[a]'' ''[a]'')])),
           Work 0, Work 0, Work 0, Tick, Flush, Flush, Flush] init =
        Some ([Appended 0 7 \<lparr>TextPayload = ''[a]'', Timestamp = zeroTime\<rparr>,
               Flushed [\<lparr>TextPayload = ''[a]'', Timestamp = zeroTime\<rparr>]], s)"
    by (simp add: run_defs)
  show ?thesis
    using run first_byte_in_bounds
      [of "\<lparr>TextPayload = ''[a]'', Timestamp = zeroTime\<rparr>"
          "[\<lparr>TextPayload = [], Timestamp = zeroTime\<rparr>]" "[]" go116 nilSlice
          "[Deliver 0 7 (Valid (JObject [(''textPayload'', JString ''[a]'' ''[a]'')])),
            Work 0, Work 0, Work 0, Tick, Flush, Flush, Flush]"
          "[Appended 0 7 \<lparr>TextPayload = ''[a]'', Timestamp = zeroTime\<rparr>,
            Flushed [\<lparr>TextPayload = ''[a]'', Timestamp = zeroTime\<rparr>]]" s]
    by auto
qed

end
